theory Spec2Isabelle
  imports Main "HOL-Library.Word" "HOL-Library.Multiset" "HOL-Library.Sublist"
    "HOL-Library.Char_ord" "HOL-Library.List_Lexorder"
begin

section \<open>Errors, panics and formatting primitives\<close>

text \<open>
  The repository holds two variants of the same directory lister:
  \<^item> \<^verbatim>\<open>src/ls.go\<close> (package \<^verbatim>\<open>ls\<close>), which polls a cancellation context;
  \<^item> \<^verbatim>\<open>src/unnamed/part_000\<close> (package \<^verbatim>\<open>command\<close>), which expands braces and globs
    and has no cancellation.
  Definitions taken from the first carry the suffix \<open>_ls\<close> where both variants define
  a function of the same name, those of the second the suffix \<open>_cmd\<close>.
\<close>

text \<open>A Go \<^verbatim>\<open>error\<close> value, with the text that \<^verbatim>\<open>%v\<close> prints for it.\<close>

datatype error = Canceled | DeadlineExceeded | Failure string

fun error_text :: "error \<Rightarrow> string" where
  "error_text Canceled = ''context canceled''"
| "error_text DeadlineExceeded = ''context deadline exceeded''"
| "error_text (Failure msg) = msg"

text \<open>A run-time panic of the Go program.\<close>

datatype panic = NilDereference | IndexOutOfRange

subsection \<open>\<^verbatim>\<open>%d\<close>: decimal rendering\<close>

definition digit_char :: "nat \<Rightarrow> char" where
  "digit_char d = ''0123456789'' ! d"

function show_nat :: "nat \<Rightarrow> string" where
  "show_nat n = (if n < 10 then [digit_char n] else show_nat (n div 10) @ [digit_char (n mod 10)])"
  by pat_completeness auto
termination
  by (relation "measure id") auto

declare show_nat.simps [simp del]

definition show_int :: "int \<Rightarrow> string" where
  "show_int i = (if i < 0 then CHR ''-'' # show_nat (nat (- i)) else show_nat (nat i))"

subsection \<open>\<^verbatim>\<open>float64\<close> conversion and \<^verbatim>\<open>%.1f\<close>\<close>

text \<open>
  Rounding of the quotient \<open>a / b\<close> (\<open>0 \<le> a\<close>, \<open>0 < b\<close>) to the nearest integer, ties to
  the even neighbour: the rule of IEEE 754 conversions and of Go's \<^verbatim>\<open>strconv\<close>.
\<close>

definition round_half_even :: "nat \<Rightarrow> nat \<Rightarrow> nat" where
  "round_half_even a b =
     (let q = a div b; r = a mod b
      in if 2 * r > b \<or> (2 * r = b \<and> odd q) then q + 1 else q)"

function bit_length :: "nat \<Rightarrow> nat" where
  "bit_length n = (if n = 0 then 0 else Suc (bit_length (n div 2)))"
  by pat_completeness auto
termination
  by (relation "measure id") auto

declare bit_length.simps [simp del]

text \<open>
  \<^verbatim>\<open>float64(x)\<close> for an integer \<open>x\<close>: the nearest value with a 53-bit significand, ties
  to even. The result is again an integer, so the model keeps it as one.
\<close>

definition float64_of_int :: "int \<Rightarrow> int" where
  "float64_of_int x =
     (let a = nat \<bar>x\<bar>; e = bit_length a - 53;
          m = round_half_even a (2 ^ e) * 2 ^ e
      in if x < 0 then - int m else int m)"

text \<open>
  \<^verbatim>\<open>fmt.Sprintf("%.1f", num / den)\<close> for the \<^verbatim>\<open>float64\<close> quotient of an integer-valued
  \<open>num\<close> by a power of two \<open>den\<close>: such a division is exact in binary floating point,
  and \<^verbatim>\<open>%.1f\<close> rounds the exact value to one decimal, ties to even.
\<close>

definition sprintf_1f :: "int \<Rightarrow> int \<Rightarrow> string" where
  "sprintf_1f num den =
     (let t = round_half_even (10 * nat \<bar>num\<bar>) (nat den)
      in (if num < 0 then ''-'' else '''') @ show_nat (t div 10) @ ''.'' @ [digit_char (t mod 10)])"

section \<open>Human-readable sizes\<close>

text \<open>An \<^verbatim>\<open>int64\<close> result that left the range wraps around.\<close>

definition int64_wrap :: "int \<Rightarrow> int" where
  "int64_wrap x = (x + 2 ^ 63) mod 2 ^ 64 - 2 ^ 63"

text \<open>
  The loop \<^verbatim>\<open>for n := size / unit; n >= unit; n /= unit { div *= unit; exp++ }\<close> shared
  by both variants. It is entered with \<open>n \<ge> 0\<close> only and divides while \<open>n \<ge> 1024\<close>, where
  Go's truncating division and \<open>div\<close> agree.
\<close>

function scale_loop :: "int \<Rightarrow> int \<Rightarrow> nat \<Rightarrow> int \<times> nat" where
  "scale_loop n dv exp =
     (if n \<ge> 1024 then scale_loop (n div 1024) (int64_wrap (dv * 1024)) (exp + 1)
      else (dv, exp))"
  by pat_completeness auto
termination
  by (relation "measure (\<lambda>(n, dv, exp). nat n)") auto

declare scale_loop.simps [simp del]

text \<open>Indexing a slice: out of range is a panic.\<close>

definition index_slice :: "'a list \<Rightarrow> nat \<Rightarrow> panic + 'a" where
  "index_slice xs i = (if i < length xs then Inr (xs ! i) else Inl IndexOutOfRange)"

text \<open>\<^verbatim>\<open>humanReadableSize\<close> of \<^verbatim>\<open>src/ls.go\<close>, on the value of its \<^verbatim>\<open>int64\<close> argument.\<close>

definition humanReadableSize_int :: "int \<Rightarrow> panic + string" where
  "humanReadableSize_int sz =
     (if sz < 1024 then Inr (show_int sz @ ''B'')
      else
        let units = [''K'', ''M'', ''G'', ''T''];
            (dv, exp) = scale_loop (sz div 1024) 1024 0
        in case index_slice units exp of
             Inl p \<Rightarrow> Inl p
           | Inr u \<Rightarrow> Inr (sprintf_1f (float64_of_int sz) (float64_of_int dv) @ u))"

definition humanReadableSize :: "64 word \<Rightarrow> panic + string" where
  "humanReadableSize sz = humanReadableSize_int (sint sz)"

text \<open>\<^verbatim>\<open>formatHumanReadable\<close> of \<^verbatim>\<open>src/unnamed/part_000\<close>.\<close>

definition formatHumanReadable_int :: "int \<Rightarrow> panic + string" where
  "formatHumanReadable_int sz =
     (if sz < 1024 then Inr (show_int sz @ ''B'')
      else
        let (dv, exp) = scale_loop (sz div 1024) 1024 0;
            units = [''K'', ''M'', ''G'', ''T'', ''P'', ''E'']
        in case index_slice units exp of
             Inl p \<Rightarrow> Inl p
           | Inr u \<Rightarrow> Inr (sprintf_1f (float64_of_int sz) (float64_of_int dv) @ u))"

definition formatHumanReadable :: "64 word \<Rightarrow> panic + string" where
  "formatHumanReadable sz = formatHumanReadable_int (sint sz)"

section \<open>Strings and paths: the Go library functions the lister calls\<close>

text \<open>\<^verbatim>\<open>strings.HasPrefix(name, ".")\<close>.\<close>

definition hidden_name :: "string \<Rightarrow> bool" where
  "hidden_name name = prefix ''.'' name"

text \<open>
  \<^verbatim>\<open>strings.Split(s, sep)\<close> for a non-empty separator: the pieces between the leftmost
  non-overlapping occurrences of \<open>sep\<close>. (The lister splits on \<^verbatim>\<open>","\<close> and \<^verbatim>\<open>".."\<close> only;
  Go's special case of an empty separator is not needed and not modelled.)
\<close>

function split_from :: "string \<Rightarrow> string \<Rightarrow> string \<Rightarrow> string list" where
  "split_from sep acc [] = [rev acc]"
| "split_from sep acc (x # xs) =
     (if sep \<noteq> [] \<and> prefix sep (x # xs)
      then rev acc # split_from sep [] (drop (length sep) (x # xs))
      else split_from sep (x # acc) xs)"
  by pat_completeness auto
termination
  by (relation "measure (\<lambda>(sep, acc, s). length s)") auto

definition strings_Split :: "string \<Rightarrow> string \<Rightarrow> string list" where
  "strings_Split s sep = split_from sep [] s"

text \<open>\<^verbatim>\<open>strings.Contains(s, sub)\<close>.\<close>

fun strings_Contains :: "string \<Rightarrow> string \<Rightarrow> bool" where
  "strings_Contains [] sub = (sub = [])"
| "strings_Contains (x # xs) sub = (prefix sub (x # xs) \<or> strings_Contains xs sub)"

text \<open>\<^verbatim>\<open>strings.Join(elems, sep)\<close>.\<close>

fun strings_Join :: "string list \<Rightarrow> string \<Rightarrow> string" where
  "strings_Join [] sep = []"
| "strings_Join [e] sep = e"
| "strings_Join (e # es) sep = e @ sep @ strings_Join es sep"

text \<open>
  \<^verbatim>\<open>filepath.Clean\<close> on a Unix path: empty components and \<^verbatim>\<open>.\<close> are dropped, a \<^verbatim>\<open>..\<close>
  removes the component before it, or is dropped at the root, or is kept at the start of
  a relative path; the empty result is \<^verbatim>\<open>.\<close>. The stack of kept components is held in
  reverse.
\<close>

definition clean_step :: "bool \<Rightarrow> string list \<Rightarrow> string \<Rightarrow> string list" where
  "clean_step rooted st c =
     (if c = ''..'' then
        (case st of
           [] \<Rightarrow> if rooted then [] else [''..'']
         | t # ts \<Rightarrow> if t = ''..'' then ''..'' # st else ts)
      else c # st)"

definition filepath_Clean :: "string \<Rightarrow> string" where
  "filepath_Clean p =
     (if p = [] then ''.''
      else
        let rooted = prefix ''/'' p;
            comps = filter (\<lambda>c. c \<noteq> [] \<and> c \<noteq> ''.'') (strings_Split p ''/'');
            body = strings_Join (rev (foldl (clean_step rooted) [] comps)) ''/''
        in if rooted then CHR ''/'' # body
           else if body = [] then ''.'' else body)"

text \<open>\<^verbatim>\<open>filepath.Join(dir, name)\<close>: the two-argument use made by the lister.\<close>

definition filepath_Join :: "string \<Rightarrow> string \<Rightarrow> string" where
  "filepath_Join dir name =
     (if dir \<noteq> [] then filepath_Clean (dir @ ''/'' @ name)
      else if name \<noteq> [] then filepath_Clean name
      else [])"

text \<open>\<^verbatim>\<open>filepath.Base\<close>: the last element of the path, trailing slashes removed first.\<close>

definition filepath_Base :: "string \<Rightarrow> string" where
  "filepath_Base p =
     (if p = [] then ''.''
      else
        let q = rev (dropWhile (\<lambda>c. c = CHR ''/'') (rev p));
            b = rev (takeWhile (\<lambda>c. c \<noteq> CHR ''/'') (rev q))
        in if b = [] then ''/'' else b)"

text \<open>\<^verbatim>\<open>%8s\<close>, \<^verbatim>\<open>%10s\<close>: right alignment in a field, by padding on the left.\<close>

definition pad_left :: "nat \<Rightarrow> string \<Rightarrow> string" where
  "pad_left w s = replicate (w - length s) CHR '' '' @ s"

section \<open>\<^verbatim>\<open>sort.Slice\<close>\<close>

text \<open>
  \<^verbatim>\<open>sort.Slice\<close> reaches the slice through two operations only, \<^verbatim>\<open>less(i, j)\<close> and
  \<^verbatim>\<open>swap(i, j)\<close>. A slice of up to twelve elements is sorted by insertion:
  \<^verbatim>\<open>for i := a+1; i < b; i++ { for j := i; j > a && less(j, j-1); j-- { swap(j, j-1) } }\<close>.
  The comparison may panic, which ends the sort. In \<open>insert_left\<close> the sorted prefix is held
  in reverse, its last element first.
\<close>

fun insert_left :: "('a \<Rightarrow> 'a \<Rightarrow> panic + bool) \<Rightarrow> 'a \<Rightarrow> 'a list \<Rightarrow> panic + 'a list" where
  "insert_left lt x [] = Inr [x]"
| "insert_left lt x (y # ys) =
     (case lt x y of
        Inl p \<Rightarrow> Inl p
      | Inr True \<Rightarrow> (case insert_left lt x ys of Inl p \<Rightarrow> Inl p | Inr zs \<Rightarrow> Inr (y # zs))
      | Inr False \<Rightarrow> Inr (x # y # ys))"

fun insertion_loop :: "('a \<Rightarrow> 'a \<Rightarrow> panic + bool) \<Rightarrow> 'a list \<Rightarrow> 'a list \<Rightarrow> panic + 'a list" where
  "insertion_loop lt pre [] = Inr (rev pre)"
| "insertion_loop lt pre (x # xs) =
     (case insert_left lt x pre of
        Inl p \<Rightarrow> Inl p
      | Inr pre2 \<Rightarrow> insertion_loop lt pre2 xs)"

text \<open>
  A longer slice is sorted by the library's pattern-defeating quicksort, which falls
  back to heap sort. That algorithm is not reproduced here. What it does is kept as a
  parameter: for every length of the slice a decision tree of the operations it makes,
  where the answer of \<^verbatim>\<open>less(i, j)\<close> selects the subtree. The library decides its next
  operation from the length and from the answers it got, and it ends after finitely
  many operations whatever the answers are, so there is such a tree.
\<close>

datatype plan = Stop | Swap nat nat plan | Less nat nat "bool \<Rightarrow> plan"

text \<open>The library keeps its indices within the slice.\<close>

primrec within :: "nat \<Rightarrow> plan \<Rightarrow> bool" where
  "within n Stop = True"
| "within n (Swap i j p) = (i < n \<and> j < n \<and> within n p)"
| "within n (Less i j k) = (i < n \<and> j < n \<and> within n (k True) \<and> within n (k False))"

typedef long_sort = "{f :: nat \<Rightarrow> plan. \<forall>n. within n (f n)}"
  morphisms plan_for Abs_long_sort
  by (rule exI [of _ "\<lambda>n. Stop"]) simp

lemma long_sort_abstype [code abstype]: "Abs_long_sort (plan_for alg) = alg"
  by (rule plan_for_inverse)

text \<open>
  Running a tree on a slice. \<^verbatim>\<open>less(i, j)\<close> and \<^verbatim>\<open>swap(i, j)\<close> read the slice as it is at
  that moment; an index outside of it would be a panic.
\<close>

primrec run_plan :: "('a \<Rightarrow> 'a \<Rightarrow> panic + bool) \<Rightarrow> plan \<Rightarrow> 'a list \<Rightarrow> panic + 'a list" where
  "run_plan lt Stop xs = Inr xs"
| "run_plan lt (Swap i j p) xs =
     (if i < length xs \<and> j < length xs then run_plan lt p (xs[i := xs ! j, j := xs ! i])
      else Inl IndexOutOfRange)"
| "run_plan lt (Less i j k) xs =
     (if i < length xs \<and> j < length xs then
        (case lt (xs ! i) (xs ! j) of
           Inl pn \<Rightarrow> Inl pn
         | Inr b \<Rightarrow> run_plan lt (k b) xs)
      else Inl IndexOutOfRange)"

definition sort_Slice ::
  "long_sort \<Rightarrow> ('a \<Rightarrow> 'a \<Rightarrow> panic + bool) \<Rightarrow> 'a list \<Rightarrow> panic + 'a list" where
  "sort_Slice alg lt xs =
     (if length xs \<le> 12 then insertion_loop lt [] xs
      else run_plan lt (plan_for alg (length xs)) xs)"

section \<open>The data model\<close>

text \<open>
  The option structure shared by both variants (\<^verbatim>\<open>opt.Flags\<close>, \<^verbatim>\<open>flags\<close>). \<^verbatim>\<open>SortBy\<close> is
  a string type in Go, so any string can be stored in it.
\<close>

record flags =
  LongFormat :: bool
  AllFiles :: bool
  HumanReadable :: bool
  Recursive :: bool
  Reverse :: bool
  SortBy :: string

text \<open>The command value: positional arguments and flags.\<close>

record command =
  Positional :: "string list"
  Flags :: flags

text \<open>
  What \<^verbatim>\<open>fs.FileInfo\<close> offers to the lister: \<^verbatim>\<open>Mode()\<close>, \<^verbatim>\<open>Size()\<close> and \<^verbatim>\<open>ModTime()\<close>, the
  latter as an instant on the time line (\<^verbatim>\<open>Before\<close> and \<^verbatim>\<open>After\<close> compare instants).
\<close>

record fileinfo =
  Mode :: "32 word"
  Size :: "64 word"
  ModTime :: int

text \<open>\<^verbatim>\<open>IsDir()\<close>: the \<^verbatim>\<open>ModeDir\<close> bit, bit 31 of the mode.\<close>

definition IsDir :: "fileinfo \<Rightarrow> bool" where
  "IsDir info = bit (Mode info) 31"

text \<open>\<^verbatim>\<open>FileMode.String()\<close>: the type letters of the set high bits, then the nine permission bits.\<close>

definition FileMode_String :: "32 word \<Rightarrow> string" where
  "FileMode_String m =
     (let ty = map snd (filter (\<lambda>(i, c). bit m (31 - i)) (zip [0..<13] ''dalTLDpSugct?''));
          perm = map (\<lambda>(i, c). if bit m (8 - i) then c else CHR ''-'') (zip [0..<9] ''rwxrwxrwx'')
      in (if ty = [] then ''-'' else ty) @ perm)"

text \<open>
  The file system is a finite tree. A node is one directory entry as \<^verbatim>\<open>os.ReadDir\<close>
  returns it (\<^verbatim>\<open>Name()\<close>, \<^verbatim>\<open>IsDir()\<close>, the result of \<^verbatim>\<open>Info()\<close>, which is an \<^verbatim>\<open>lstat\<close>),
  together with what the system calls answer for the path of that entry: the result of
  \<^verbatim>\<open>os.Stat\<close>, and the entries and the error of \<^verbatim>\<open>os.ReadDir\<close>. Every call can fail
  independently of the others, as it can on a file system that changes under the lister.
\<close>

datatype node =
  Node (entry_name: string) (entry_is_dir: bool) (entry_info: "error + fileinfo")
       (path_stat: "error + fileinfo") (dir_entries: "node list") (dir_error: "error option")

text \<open>
  What the program does not determine: the node a path argument resolves to, the result
  of \<^verbatim>\<open>filepath.Glob\<close> on a pattern that has metacharacters, the two renderings of a time
  stamp (\<^verbatim>\<open>Format(time.Stamp)\<close>, \<^verbatim>\<open>Format(time.DateTime)\<close>), which depend on the local time
  zone, and the operations of \<^verbatim>\<open>sort.Slice\<close> on a slice of more than twelve elements.
\<close>

record world =
  lookup :: "string \<Rightarrow> node"
  glob :: "string \<Rightarrow> error + string list"
  format_Stamp :: "int \<Rightarrow> string"
  format_DateTime :: "int \<Rightarrow> string"
  pdqsort :: long_sort

text \<open>
  The two output streams. Every write of the lister is one line; the streams are the
  lists of the lines written, without the final newline.
\<close>

record io =
  stdout :: "string list"
  stderr :: "string list"

definition Fprintln :: "string \<Rightarrow> string list \<Rightarrow> string list" where
  "Fprintln line out = out @ [line]"

text \<open>
  The cancellation context, as the program can observe it: a number of polls that still
  find it live, after which every poll returns its error. \<open>Background\<close> is never cancelled.
\<close>

datatype ctx = Background | CancelAfter nat error

text \<open>
  \<^verbatim>\<open>yup.CheckContextCancellation(ctx)\<close> of the framework: \<^verbatim>\<open>ctx.Err()\<close> once the context
  is done, \<^verbatim>\<open>nil\<close> before. The second component is the context at the next poll.
\<close>

fun CheckContextCancellation :: "ctx \<Rightarrow> error option \<times> ctx" where
  "CheckContextCancellation Background = (None, Background)"
| "CheckContextCancellation (CancelAfter 0 e) = (Some e, CancelAfter 0 e)"
| "CheckContextCancellation (CancelAfter (Suc n) e) = (None, CancelAfter n e)"

section \<open>The lister of \<^verbatim>\<open>src/ls.go\<close>\<close>

text \<open>A diagnostic line \<^verbatim>\<open>ls: <path>: <error>\<close>.\<close>

definition diagnostic :: "string \<Rightarrow> error \<Rightarrow> string" where
  "diagnostic path err = ''ls: '' @ path @ '': '' @ error_text err"

text \<open>
  Go compares strings bytewise and lexicographically; so does \<open><\<close> on \<open>string\<close> here
  (characters by their code, lists lexicographically).

  The comparison closure of \<^verbatim>\<open>sortEntries\<close> in \<^verbatim>\<open>src/ls.go\<close>. The error of \<^verbatim>\<open>Info()\<close> is
  discarded there; a failed \<^verbatim>\<open>Info()\<close> returns a nil \<^verbatim>\<open>FileInfo\<close>, and the method call on
  it panics.
\<close>

definition less_ls :: "command \<Rightarrow> node \<Rightarrow> node \<Rightarrow> panic + bool" where
  "less_ls c e1 e2 =
     (let r =
        (if SortBy (Flags c) = ''time'' then
           (case (entry_info e1, entry_info e2) of
              (Inr info1, Inr info2) \<Rightarrow> Inr (ModTime info1 < ModTime info2)
            | _ \<Rightarrow> Inl NilDereference)
         else if SortBy (Flags c) = ''size'' then
           (case (entry_info e1, entry_info e2) of
              (Inr info1, Inr info2) \<Rightarrow> Inr (sint (Size info1) < sint (Size info2))
            | _ \<Rightarrow> Inl NilDereference)
         else Inr (entry_name e1 < entry_name e2))
      in case r of
           Inl p \<Rightarrow> Inl p
         | Inr lt \<Rightarrow> Inr (if Reverse (Flags c) then \<not> lt else lt))"

text \<open>\<^verbatim>\<open>sortEntries\<close> of \<^verbatim>\<open>src/ls.go\<close>: on cancellation the entries stay unsorted.\<close>

definition sortEntries_ls ::
  "command \<Rightarrow> world \<Rightarrow> ctx \<Rightarrow> node list \<Rightarrow> panic + (node list \<times> ctx)" where
  "sortEntries_ls c w ctx entries =
     (case CheckContextCancellation ctx of
        (Some err, ctx') \<Rightarrow> Inr (entries, ctx')
      | (None, ctx') \<Rightarrow>
          (case sort_Slice (pdqsort w) (less_ls c) entries of
             Inl p \<Rightarrow> Inl p
           | Inr sorted_entries \<Rightarrow> Inr (sorted_entries, ctx')))"

definition printLongFormat :: "command \<Rightarrow> world \<Rightarrow> io \<Rightarrow> string \<Rightarrow> fileinfo \<Rightarrow> panic + io" where
  "printLongFormat c w out path info =
     (let mode = FileMode_String (Mode info);
          sz = Size info;
          modTime = format_Stamp w (ModTime info);
          name = filepath_Base path
      in case (if HumanReadable (Flags c) then humanReadableSize sz
               else Inr (show_int (sint sz))) of
           Inl p \<Rightarrow> Inl p
         | Inr sizeStr \<Rightarrow>
             Inr (out\<lparr>stdout := Fprintln
               (mode @ '' '' @ pad_left 8 sizeStr @ '' '' @ modTime @ '' '' @ name) (stdout out)\<rparr>))"

definition printFile :: "command \<Rightarrow> world \<Rightarrow> io \<Rightarrow> string \<Rightarrow> fileinfo \<Rightarrow> panic + io" where
  "printFile c w out path info =
     (if LongFormat (Flags c) then printLongFormat c w out path info
      else Inr (out\<lparr>stdout := Fprintln (filepath_Base path) (stdout out)\<rparr>))"

text \<open>
  The filter loop of \<^verbatim>\<open>listPath\<close> (the context is polled at every thousandth entry);
  \<open>i\<close> is the index of the next entry, \<open>items\<close> the entries kept so far.
\<close>

fun filter_entries ::
  "command \<Rightarrow> nat \<Rightarrow> node list \<Rightarrow> node list \<Rightarrow> ctx \<Rightarrow> (error + node list) \<times> ctx" where
  "filter_entries c i [] items ctx = (Inr items, ctx)"
| "filter_entries c i (entry # rest) items ctx =
     (case (if i mod 1000 = 0 then CheckContextCancellation ctx else (None, ctx)) of
        (Some err, ctx') \<Rightarrow> (Inl err, ctx')
      | (None, ctx') \<Rightarrow>
          if \<not> AllFiles (Flags c) \<and> hidden_name (entry_name entry)
          then filter_entries c (i + 1) rest items ctx'
          else filter_entries c (i + 1) rest (items @ [entry]) ctx')"

lemma filter_entries_items:
  "filter_entries c i es items ctx = (Inr items', ctx') \<Longrightarrow>
   items' = items @ filter (\<lambda>e. AllFiles (Flags c) \<or> \<not> hidden_name (entry_name e)) es"
proof (induction es arbitrary: i items ctx)
  case Nil
  then show ?case by simp
next
  case (Cons e es)
  obtain r ctx1 where chk:
    "(if i mod 1000 = 0 then CheckContextCancellation ctx else (None, ctx)) = (r, ctx1)"
    by (cases "if i mod 1000 = 0 then CheckContextCancellation ctx else (None, ctx)") blast
  show ?case
  proof (cases r)
    case (Some err)
    with Cons.prems chk show ?thesis by simp
  next
    case None
    show ?thesis
    proof (cases "\<not> AllFiles (Flags c) \<and> hidden_name (entry_name e)")
      case True
      with Cons.prems chk None have "filter_entries c (i + 1) es items ctx1 = (Inr items', ctx')"
        by simp
      from Cons.IH [OF this] True show ?thesis by simp
    next
      case False
      with Cons.prems chk None
      have "filter_entries c (i + 1) es (items @ [e]) ctx1 = (Inr items', ctx')"
        by auto
      from Cons.IH [OF this] False show ?thesis by auto
    qed
  qed
qed

lemma insert_left_mset:
  "insert_left lt x ys = Inr zs \<Longrightarrow> mset zs = add_mset x (mset ys)"
  by (induction ys arbitrary: zs) (auto split: sum.splits bool.splits if_splits)

lemma insertion_loop_mset:
  "insertion_loop lt pre xs = Inr ys \<Longrightarrow> mset ys = mset pre + mset xs"
proof (induction xs arbitrary: pre)
  case Nil
  then show ?case by auto
next
  case (Cons x xs)
  then show ?case
    by (auto split: sum.splits dest!: insert_left_mset)
qed

lemma run_plan_mset: "run_plan lt p xs = Inr ys \<Longrightarrow> mset ys = mset xs"
proof (induction p arbitrary: xs)
  case Stop
  then show ?case by simp
next
  case (Swap i j p)
  from Swap.prems have b: "i < length xs" "j < length xs"
    and run: "run_plan lt p (xs[i := xs ! j, j := xs ! i]) = Inr ys"
    by (auto split: if_splits)
  from Swap.IH [OF run] mset_swap [OF b(2,1)] show ?case by simp
next
  case (Less i j k)
  then show ?case by (auto split: if_splits sum.splits)
qed

lemma sort_Slice_mset: "sort_Slice alg lt xs = Inr ys \<Longrightarrow> mset ys = mset xs"
  by (auto simp: sort_Slice_def insertion_loop_mset run_plan_mset split: if_splits)

lemma sortEntries_ls_mset:
  "sortEntries_ls c w ctx es = Inr (es', ctx') \<Longrightarrow> mset es' = mset es"
  by (auto simp: sortEntries_ls_def sort_Slice_mset split: prod.splits option.splits sum.splits)

lemma size_list_as_sum_mset:
  "size_list f xs = sum_mset (image_mset (\<lambda>x. Suc (f x)) (mset xs))"
  by (induction xs) auto

lemma size_entries_mset: "mset xs = mset ys \<Longrightarrow> size_list f xs = size_list f ys"
  by (simp add: size_list_as_sum_mset)

lemma size_entries_filter: "size_list f (filter P xs) \<le> size_list f xs"
  by (induction xs) auto

text \<open>
  \<^verbatim>\<open>listPath\<close>, with the loop that prints the entries as \<open>listPath_entries\<close> (\<open>i\<close> is the
  index of the next entry). The node is the one the path names. The result of the
  recursive call is dropped, as in the source; its output and a panic are not.
\<close>

function listPath ::
    "command \<Rightarrow> world \<Rightarrow> string \<Rightarrow> node \<Rightarrow> ctx \<Rightarrow> io \<Rightarrow> panic + (error option \<times> ctx \<times> io)"
  and listPath_entries ::
    "command \<Rightarrow> world \<Rightarrow> string \<Rightarrow> nat \<Rightarrow> node list \<Rightarrow> ctx \<Rightarrow> io \<Rightarrow> panic + (error option \<times> ctx \<times> io)"
where
  "listPath c w path nd ctx out =
     (case CheckContextCancellation ctx of
        (Some err, ctx1) \<Rightarrow> Inr (Some err, ctx1, out)
      | (None, ctx1) \<Rightarrow>
     (case path_stat nd of
        Inl err \<Rightarrow> Inr (Some err, ctx1, out)
      | Inr info \<Rightarrow>
     if \<not> IsDir info then
       (case printFile c w out path info of
          Inl p \<Rightarrow> Inl p
        | Inr out1 \<Rightarrow> Inr (None, ctx1, out1))
     else
     (case dir_error nd of
        Some err \<Rightarrow> Inr (Some err, ctx1, out)
      | None \<Rightarrow>
     (case CheckContextCancellation ctx1 of
        (Some err, ctx2) \<Rightarrow> Inr (Some err, ctx2, out)
      | (None, ctx2) \<Rightarrow>
     (case filter_entries c 0 (dir_entries nd) [] ctx2 of
        (Inl err, ctx3) \<Rightarrow> Inr (Some err, ctx3, out)
      | (Inr items, ctx3) \<Rightarrow>
     (case sortEntries_ls c w ctx3 items of
        Inl p \<Rightarrow> Inl p
      | Inr (sorted_items, ctx4) \<Rightarrow>
     (case CheckContextCancellation ctx4 of
        (Some err, ctx5) \<Rightarrow> Inr (Some err, ctx5, out)
      | (None, ctx5) \<Rightarrow> listPath_entries c w path 0 sorted_items ctx5 out)))))))"
| "listPath_entries c w path i [] ctx out = Inr (None, ctx, out)"
| "listPath_entries c w path i (entry # rest) ctx out =
     (case (if i mod 100 = 0 then CheckContextCancellation ctx else (None, ctx)) of
        (Some err, ctx1) \<Rightarrow> Inr (Some err, ctx1, out)
      | (None, ctx1) \<Rightarrow>
     (let entryPath = filepath_Join path (entry_name entry) in
      case entry_info entry of
        Inl err \<Rightarrow>
          listPath_entries c w path (i + 1) rest ctx1
            (out\<lparr>stderr := Fprintln (diagnostic entryPath err) (stderr out)\<rparr>)
      | Inr entryInfo \<Rightarrow>
     (case printFile c w out entryPath entryInfo of
        Inl p \<Rightarrow> Inl p
      | Inr out1 \<Rightarrow>
     if Recursive (Flags c) \<and> IsDir entryInfo then
       (case listPath c w entryPath entry ctx1
               (out1\<lparr>stdout := Fprintln (entryPath @ '':'') (Fprintln [] (stdout out1))\<rparr>) of
          Inl p \<Rightarrow> Inl p
        | Inr (ignored, ctx2, out2) \<Rightarrow> listPath_entries c w path (i + 1) rest ctx2 out2)
     else listPath_entries c w path (i + 1) rest ctx1 out1)))"
  by pat_completeness auto
termination
proof (relation "measure (\<lambda>x. case x of
          Inl (c, w, path, nd, ctx, out) \<Rightarrow> 2 * size nd
        | Inr (c, w, path, i, es, ctx, out) \<Rightarrow> 2 * size_list size es + 1)", goal_cases)
  case 1
  show ?case by simp
next
  case (2 c w path nd ctx out x1 ctx1 info x2 ctx2 x3 ctx3 items x4 sorted_items ctx4 x5 ctx5)
  have "items = filter (\<lambda>e. AllFiles (Flags c) \<or> \<not> hidden_name (entry_name e)) (dir_entries nd)"
    using filter_entries_items [of c 0 "dir_entries nd" "[]" ctx2 items ctx3] 2 by simp
  then have "size_list size items \<le> size_list size (dir_entries nd)"
    by (simp add: size_entries_filter)
  moreover have "size_list size sorted_items = size_list size items"
    using 2 sortEntries_ls_mset [of c w ctx3 items sorted_items ctx4]
    by (auto intro: size_entries_mset)
  moreover have "size_list size (dir_entries nd) < size nd"
    by (cases nd) simp
  ultimately show ?case by simp
qed auto

declare listPath.simps [simp del]

text \<open>
  \<^verbatim>\<open>Execute\<close>, with its loop over the paths as \<open>Execute_paths\<close> (\<open>n\<close> is \<^verbatim>\<open>len(paths)\<close>, \<open>i\<close>
  the index of the next path). An error of \<^verbatim>\<open>listPath\<close> is written to the diagnostic
  stream and the loop goes on.
\<close>

fun Execute_paths ::
  "command \<Rightarrow> world \<Rightarrow> nat \<Rightarrow> nat \<Rightarrow> string list \<Rightarrow> ctx \<Rightarrow> io \<Rightarrow> panic + (error option \<times> io)" where
  "Execute_paths c w n i [] ctx out = Inr (None, out)"
| "Execute_paths c w n i (path # rest) ctx out =
     (case CheckContextCancellation ctx of
        (Some err, ctx1) \<Rightarrow> Inr (Some err, out)
      | (None, ctx1) \<Rightarrow>
     (let out1 = (if n > 1 \<and> i > 0 then out\<lparr>stdout := Fprintln [] (stdout out)\<rparr> else out);
          out2 = (if n > 1 then out1\<lparr>stdout := Fprintln (path @ '':'') (stdout out1)\<rparr> else out1)
      in case listPath c w path (lookup w path) ctx1 out2 of
           Inl p \<Rightarrow> Inl p
         | Inr (Some err, ctx2, out3) \<Rightarrow>
             Execute_paths c w n (i + 1) rest ctx2
               (out3\<lparr>stderr := Fprintln (diagnostic path err) (stderr out3)\<rparr>)
         | Inr (None, ctx2, out3) \<Rightarrow> Execute_paths c w n (i + 1) rest ctx2 out3))"

definition Execute :: "command \<Rightarrow> world \<Rightarrow> ctx \<Rightarrow> io \<Rightarrow> panic + (error option \<times> io)" where
  "Execute c w ctx out =
     (case CheckContextCancellation ctx of
        (Some err, ctx1) \<Rightarrow> Inr (Some err, out)
      | (None, ctx1) \<Rightarrow>
          let paths = (if length (Positional c) = 0 then [''.''] else Positional c)
          in Execute_paths c w (length paths) 0 paths ctx1 out)"

section \<open>Pattern expansion of \<^verbatim>\<open>src/unnamed/part_000\<close>\<close>

subsection \<open>Library functions\<close>

text \<open>
  \<^verbatim>\<open>strings.TrimSpace\<close> removes the leading and trailing white space of Unicode; on the
  bytes of a string these are the following UTF-8 sequences.
\<close>

definition space_seqs :: "string list" where
  "space_seqs =
     [[CHR 0x09], [CHR 0x0A], [CHR 0x0B], [CHR 0x0C], [CHR 0x0D], [CHR 0x20],
      [CHR 0xC2, CHR 0x85], [CHR 0xC2, CHR 0xA0], [CHR 0xE1, CHR 0x9A, CHR 0x80],
      [CHR 0xE2, CHR 0x80, CHR 0x80], [CHR 0xE2, CHR 0x80, CHR 0x81],
      [CHR 0xE2, CHR 0x80, CHR 0x82], [CHR 0xE2, CHR 0x80, CHR 0x83],
      [CHR 0xE2, CHR 0x80, CHR 0x84], [CHR 0xE2, CHR 0x80, CHR 0x85],
      [CHR 0xE2, CHR 0x80, CHR 0x86], [CHR 0xE2, CHR 0x80, CHR 0x87],
      [CHR 0xE2, CHR 0x80, CHR 0x88], [CHR 0xE2, CHR 0x80, CHR 0x89],
      [CHR 0xE2, CHR 0x80, CHR 0x8A], [CHR 0xE2, CHR 0x80, CHR 0xA8],
      [CHR 0xE2, CHR 0x80, CHR 0xA9], [CHR 0xE2, CHR 0x80, CHR 0xAF],
      [CHR 0xE2, CHR 0x81, CHR 0x9F], [CHR 0xE3, CHR 0x80, CHR 0x80]]"

text \<open>The length in bytes of the white-space character at the start, or at the end, of \<open>s\<close>.\<close>

definition leading_space :: "string \<Rightarrow> nat option" where
  "leading_space s = map_option length (find (\<lambda>q. prefix q s) space_seqs)"

definition trailing_space :: "string \<Rightarrow> nat option" where
  "trailing_space s = map_option length (find (\<lambda>q. suffix q s) space_seqs)"

lemma leading_space_bounds: "leading_space s = Some n \<Longrightarrow> 0 < n \<and> n \<le> length s"
proof -
  assume "leading_space s = Some n"
  then obtain q where q: "find (\<lambda>q. prefix q s) space_seqs = Some q" "n = length q"
    by (auto simp: leading_space_def)
  then have "q \<in> set space_seqs" and "prefix q s"
    by (auto simp: find_Some_iff)
  then have "0 < length q" and "length q \<le> length s"
    by (auto simp: space_seqs_def prefix_def)
  with q show ?thesis by simp
qed

lemma trailing_space_bounds: "trailing_space s = Some n \<Longrightarrow> 0 < n \<and> n \<le> length s"
proof -
  assume "trailing_space s = Some n"
  then obtain q where q: "find (\<lambda>q. suffix q s) space_seqs = Some q" "n = length q"
    by (auto simp: trailing_space_def)
  then have "q \<in> set space_seqs" and "suffix q s"
    by (auto simp: find_Some_iff)
  then have "0 < length q" and "length q \<le> length s"
    by (auto simp: space_seqs_def suffix_def)
  with q show ?thesis by simp
qed

function trim_left :: "string \<Rightarrow> string" where
  "trim_left s = (case leading_space s of Some n \<Rightarrow> trim_left (drop n s) | None \<Rightarrow> s)"
  by pat_completeness auto
termination
  by (relation "measure length") (auto dest: leading_space_bounds)

function trim_right :: "string \<Rightarrow> string" where
  "trim_right s =
     (case trailing_space s of Some n \<Rightarrow> trim_right (take (length s - n) s) | None \<Rightarrow> s)"
  by pat_completeness auto
termination
  by (relation "measure length") (auto dest: trailing_space_bounds)

declare trim_left.simps [simp del] trim_right.simps [simp del]

definition strings_TrimSpace :: "string \<Rightarrow> string" where
  "strings_TrimSpace s = trim_right (trim_left s)"

text \<open>\<^verbatim>\<open>strings.Index(s, "{")\<close>: the index of the first occurrence of a byte, if any.\<close>

definition strings_IndexByte :: "string \<Rightarrow> char \<Rightarrow> nat option" where
  "strings_IndexByte s c = (if c \<in> set s then Some (length (takeWhile (\<lambda>x. x \<noteq> c) s)) else None)"

text \<open>
  \<^verbatim>\<open>fmt.Sscanf(str, "%d", &v)\<close> on a string without leading white space: an optional
  sign, then at least one decimal digit; the digits are read as far as they go and the
  rest of the string is ignored. A value outside \<^verbatim>\<open>int64\<close> is an error.
\<close>

definition is_digit :: "char \<Rightarrow> bool" where
  "is_digit c = (c \<in> set ''0123456789'')"

definition digit_value :: "char \<Rightarrow> nat" where
  "digit_value c = of_char c - 48"

definition digits_value :: "string \<Rightarrow> nat" where
  "digits_value ds = foldl (\<lambda>v c. 10 * v + digit_value c) 0 ds"

definition Sscanf_d :: "string \<Rightarrow> int option" where
  "Sscanf_d str =
     (let (neg, rest) =
            (case str of
               [] \<Rightarrow> (False, [])
             | c # cs \<Rightarrow> if c = CHR ''-'' then (True, cs)
                        else if c = CHR ''+'' then (False, cs) else (False, str));
          ds = takeWhile is_digit rest;
          v = (if neg then - int (digits_value ds) else int (digits_value ds))
      in if ds = [] then None
         else if - (2 ^ 63) \<le> v \<and> v < 2 ^ 63 then Some v else None)"

text \<open>\<^verbatim>\<open>string(r)\<close> for a rune below 256: its UTF-8 encoding, one byte or two.\<close>

definition string_of_rune :: "nat \<Rightarrow> string" where
  "string_of_rune r =
     (if r < 128 then [char_of r]
      else [char_of (192 + r div 64), char_of (128 + r mod 64)])"

subsection \<open>\<^verbatim>\<open>expandRange\<close>\<close>

text \<open>
  The two numeric loops, \<^verbatim>\<open>for i := s; i <= e; i++\<close> and \<^verbatim>\<open>for i := s; i >= e; i--\<close>, on
  Go's 64-bit \<^verbatim>\<open>int\<close>. The increment wraps around, so the first loop does not end when
  \<open>e\<close> is the largest \<^verbatim>\<open>int\<close>, nor the second when \<open>e\<close> is the smallest: \<open>None\<close> stands for a
  loop that never returns.
\<close>

partial_function (option) range_up :: "int \<Rightarrow> int \<Rightarrow> string list \<Rightarrow> string list option" where
  "range_up i e result =
     (if i \<le> e then range_up (int64_wrap (i + 1)) e (result @ [show_int i]) else Some result)"

partial_function (option) range_down :: "int \<Rightarrow> int \<Rightarrow> string list \<Rightarrow> string list option" where
  "range_down i e result =
     (if i \<ge> e then range_down (int64_wrap (i - 1)) e (result @ [show_int i]) else Some result)"

declare range_up.simps [code] range_down.simps [code]

definition expandRange :: "string \<Rightarrow> string \<Rightarrow> string list option" where
  "expandRange start end =
     (case (case Sscanf_d start of
              None \<Rightarrow> None
            | Some s \<Rightarrow> (case Sscanf_d end of None \<Rightarrow> None | Some e \<Rightarrow> Some (s, e))) of
        Some (s, e) \<Rightarrow> if s \<le> e then range_up s e [] else range_down s e []
      | None \<Rightarrow>
          if length start = 1 \<and> length end = 1 then
            let s = of_char (start ! 0) :: nat; e = of_char (end ! 0) :: nat
            in if s \<le> e then Some (map string_of_rune [s..<e + 1])
               else Some (map string_of_rune (rev [e..<s + 1]))
          else Some [start, end])"

subsection \<open>\<^verbatim>\<open>expandBraces\<close>\<close>

text \<open>
  The search for the closing brace: the loop \<^verbatim>\<open>for i := start; i < len(pattern); i++\<close>
  with its depth counter, on the bytes from index \<open>i\<close> on.
\<close>

fun match_brace :: "nat \<Rightarrow> int \<Rightarrow> string \<Rightarrow> nat option" where
  "match_brace i depth [] = None"
| "match_brace i depth (c # cs) =
     (if c = CHR ''{'' then match_brace (i + 1) (depth + 1) cs
      else if c = CHR ''}'' then
        (if depth - 1 = 0 then Some i else match_brace (i + 1) (depth - 1) cs)
      else match_brace (i + 1) depth cs)"

text \<open>
  The expansions of the text between the braces: a range when the text holds \<^verbatim>\<open>..\<close> and
  splits into two parts at it, the comma-separated items when that gave nothing.
\<close>

definition brace_expansions :: "string \<Rightarrow> string list option" where
  "brace_expansions braceContent =
     (case (if strings_Contains braceContent ''..'' then
              (let parts = strings_Split braceContent ''..''
               in if length parts = 2
                  then expandRange (strings_TrimSpace (parts ! 0)) (strings_TrimSpace (parts ! 1))
                  else Some [])
            else Some []) of
        None \<Rightarrow> None
      | Some expansions \<Rightarrow>
          Some (if length expansions = 0
                then map strings_TrimSpace (strings_Split braceContent '','')
                else expansions))"

text \<open>Appending the results of the recursive calls; one that never returns stops everything.\<close>

fun append_all :: "'a list option list \<Rightarrow> 'a list option" where
  "append_all [] = Some []"
| "append_all (None # rs) = None"
| "append_all (Some xs # rs) = map_option ((@) xs) (append_all rs)"

subsection \<open>The recursion of \<^verbatim>\<open>expandBraces\<close> ends\<close>

text \<open>
  Every expansion of a brace group is shorter than the group with its braces, so the
  recombined pattern is shorter than the pattern. The bounds on the numbers of a range
  come from the lengths of the texts they were read from.
\<close>

definition int64_min :: int where "int64_min = - (2 ^ 63)"
definition int64_max :: int where "int64_max = 2 ^ 63 - 1"

lemma int64_pow64: "(2::int) ^ 64 = 2 * 2 ^ 63"
  by simp

lemma int64_wrap_range: "int64_min \<le> int64_wrap x \<and> int64_wrap x \<le> int64_max"
proof -
  have "0 \<le> (x + 2 ^ 63) mod (2 ^ 64 :: int)"
    by (rule pos_mod_sign) simp
  moreover have "(x + 2 ^ 63) mod (2 ^ 64 :: int) < 2 ^ 64"
    by (rule pos_mod_bound) simp
  ultimately show ?thesis
    unfolding int64_wrap_def int64_min_def int64_max_def using int64_pow64 by linarith
qed

lemma int64_wrap_id:
  assumes "int64_min \<le> x" and "x \<le> int64_max"
  shows "int64_wrap x = x"
proof -
  from assms have "0 \<le> x + 2 ^ 63" and "x + 2 ^ 63 < 2 ^ 64"
    unfolding int64_min_def int64_max_def using int64_pow64 by linarith+
  then have "(x + 2 ^ 63) mod 2 ^ 64 = x + 2 ^ 63"
    by (rule mod_pos_pos_trivial)
  then show ?thesis
    unfolding int64_wrap_def by linarith
qed

lemma show_nat_length: "n < 10 ^ k \<Longrightarrow> 0 < k \<Longrightarrow> length (show_nat n) \<le> k"
proof (induction n arbitrary: k rule: show_nat.induct)
  case (1 n)
  show ?case
  proof (cases "n < 10")
    case True
    with 1 show ?thesis by (simp add: show_nat.simps [of n])
  next
    case False
    with 1(2) 1(3) have k2: "1 < k"
      by (cases "k = 1") auto
    then obtain k' where k': "k = Suc k'" "0 < k'"
      by (cases k) auto
    from 1(2) k' have "n div 10 < 10 ^ k'"
      by (simp add: less_mult_imp_div_less mult.commute)
    from 1(1) [OF False this k'(2)] False k' show ?thesis
      by (simp add: show_nat.simps [of n])
  qed
qed

lemma show_int_length: "\<bar>j\<bar> < 10 ^ k \<Longrightarrow> 0 < k \<Longrightarrow> length (show_int j) \<le> k + 1"
proof -
  assume a: "\<bar>j\<bar> < 10 ^ k" "0 < k"
  then have "nat \<bar>j\<bar> < 10 ^ k"
    by (metis nat_less_iff abs_ge_zero of_nat_numeral of_nat_power)
  from show_nat_length [OF this a(2)] show ?thesis
    by (auto simp: show_int_def abs_if split: if_splits)
qed

lemma digit_value_le: "is_digit c \<Longrightarrow> digit_value c \<le> 9"
  unfolding is_digit_def digit_value_def
  by (elim rev_mp) simp

lemma digits_value_bound:
  assumes "\<forall>c\<in>set ds. is_digit c"
  shows "digits_value ds < 10 ^ length ds"
proof -
  have "foldl (\<lambda>v c. 10 * v + digit_value c) v ds < (v + 1) * 10 ^ length ds"
    if "\<forall>c\<in>set ds. is_digit c" for v
    using that
  proof (induction ds arbitrary: v)
    case Nil
    then show ?case by simp
  next
    case (Cons c ds)
    then have d: "digit_value c \<le> 9"
      by (simp add: digit_value_le)
    have "foldl (\<lambda>v c. 10 * v + digit_value c) v (c # ds) =
          foldl (\<lambda>v c. 10 * v + digit_value c) (10 * v + digit_value c) ds"
      by simp
    also have "\<dots> < (10 * v + digit_value c + 1) * 10 ^ length ds"
      using Cons.IH [of "10 * v + digit_value c"] Cons.prems by simp
    also have "\<dots> \<le> (10 * v + 10) * 10 ^ length ds"
      using d by (intro mult_right_mono) auto
    also have "\<dots> = (v + 1) * 10 ^ length (c # ds)"
      by (simp add: algebra_simps)
    finally show ?case .
  qed
  from this [of 0] assms show ?thesis by (simp add: digits_value_def)
qed

lemma Sscanf_d_bound:
  assumes "Sscanf_d str = Some v"
  shows "\<bar>v\<bar> < 10 ^ length str \<and> 0 < length str \<and> int64_min \<le> v \<and> v \<le> int64_max"
proof -
  obtain neg rest where nr: "(case str of
               [] \<Rightarrow> (False, [])
             | c # cs \<Rightarrow> if c = CHR ''-'' then (True, cs)
                        else if c = CHR ''+'' then (False, cs) else (False, str)) = (neg, rest)"
    by (meson surj_pair)
  then have len: "length rest \<le> length str"
    by (auto split: list.splits if_splits)
  let ?ds = "takeWhile is_digit rest"
  from assms nr have ne: "?ds \<noteq> []" and v: "\<bar>v\<bar> = int (digits_value ?ds)" 
    and rng0: "- (2 ^ 63) \<le> v \<and> v < 2 ^ 63"
    by (auto simp: Sscanf_d_def Let_def split: if_splits)
  from rng0 have rng: "int64_min \<le> v \<and> v \<le> int64_max"
    unfolding int64_min_def int64_max_def by linarith
  have "digits_value ?ds < 10 ^ length ?ds"
    by (rule digits_value_bound) (auto dest: set_takeWhileD)
  also have "\<dots> \<le> 10 ^ length str"
    using len length_takeWhile_le [of is_digit rest] by (intro power_increasing) auto
  finally have "int (digits_value ?ds) < 10 ^ length str"
    by (metis of_nat_less_iff of_nat_numeral of_nat_power)
  moreover from ne len have "0 < length str" by (cases rest) auto
  ultimately show ?thesis using v rng by simp
qed



text \<open>
  What the numeric loops return: decimal renderings of numbers in the \<^verbatim>\<open>int\<close> range,
  and between the bounds unless the bound is the one at which the counter wraps
  (\<open>wrap_at = 0\<close>).
\<close>

definition range_elems :: "int \<Rightarrow> int \<Rightarrow> int \<Rightarrow> string list \<Rightarrow> string list \<Rightarrow> bool" where
  "range_elems lo hi wrap_at acc r \<longleftrightarrow>
     (\<forall>x\<in>set r. x \<in> set acc \<or>
        (\<exists>j. x = show_int j \<and> int64_min \<le> j \<and> j \<le> int64_max \<and> (lo \<le> j \<and> j \<le> hi \<or> wrap_at = 0)))"

lemma range_elemsI:
  assumes "range_elems lo' hi' w (acc @ [show_int i]) r"
    and "int64_min \<le> i" "i \<le> int64_max" "lo \<le> i \<and> i \<le> hi \<or> w = 0"
    and "lo \<le> lo' \<and> hi' \<le> hi \<or> w = 0"
  shows "range_elems lo hi w acc r"
  unfolding range_elems_def
proof
  fix x assume "x \<in> set r"
  with assms(1) consider "x \<in> set acc" | "x = show_int i"
    | j where "x = show_int j" "int64_min \<le> j" "j \<le> int64_max" "lo' \<le> j \<and> j \<le> hi' \<or> w = 0"
    by (auto simp: range_elems_def)
  then show "x \<in> set acc \<or>
        (\<exists>j. x = show_int j \<and> int64_min \<le> j \<and> j \<le> int64_max \<and> (lo \<le> j \<and> j \<le> hi \<or> w = 0))"
  proof cases
    case 1 then show ?thesis by simp
  next
    case 2 with assms(2-4) show ?thesis by blast
  next
    case 3
    with assms(5) have "lo \<le> j \<and> j \<le> hi \<or> w = 0" by linarith
    with 3 show ?thesis by blast
  qed
qed

lemma range_up_elems:
  assumes "range_up i e acc = Some r"
  shows "int64_min \<le> i \<longrightarrow> e \<le> int64_max \<longrightarrow> range_elems i e (int64_max - e) acc r"
proof (rule range_up.raw_induct [where P = "\<lambda>i e acc r. int64_min \<le> i \<longrightarrow> e \<le> int64_max \<longrightarrow> range_elems i e (int64_max - e) acc r", OF _ assms], intro impI)
  fix f i e acc r
  assume IH: "\<And>i e acc r. f i e acc = Some r \<Longrightarrow> int64_min \<le> i \<longrightarrow> e \<le> int64_max \<longrightarrow> range_elems i e (int64_max - e) acc r"
    and body: "(if i \<le> e then f (int64_wrap (i + 1)) e (acc @ [show_int i]) else Some acc) = Some r"
    and i: "int64_min \<le> i" and e: "e \<le> int64_max"
  show "range_elems i e (int64_max - e) acc r"
  proof (cases "i \<le> e")
    case False
    with body show ?thesis by (simp add: range_elems_def)
  next
    case True
    with body have rec: "f (int64_wrap (i + 1)) e (acc @ [show_int i]) = Some r"
      by simp
    have "int64_min \<le> int64_wrap (i + 1)"
      using int64_wrap_range by blast
    with IH [OF rec] e have ih: "range_elems (int64_wrap (i + 1)) e (int64_max - e) (acc @ [show_int i]) r"
      by blast
    have "i \<le> int64_wrap (i + 1) \<and> e \<le> e \<or> int64_max - e = 0"
    proof (cases "i + 1 \<le> int64_max")
      case True
      with i have "int64_wrap (i + 1) = i + 1" by (intro int64_wrap_id) auto
      then show ?thesis by simp
    next
      case False
      with \<open>i \<le> e\<close> e show ?thesis by simp
    qed
    with ih i e True show ?thesis
      by (intro range_elemsI [OF ih]) auto
  qed
qed

lemma range_down_elems:
  assumes "range_down i e acc = Some r"
  shows "i \<le> int64_max \<longrightarrow> int64_min \<le> e \<longrightarrow> range_elems e i (e - int64_min) acc r"
proof (rule range_down.raw_induct [where P = "\<lambda>i e acc r. i \<le> int64_max \<longrightarrow> int64_min \<le> e \<longrightarrow> range_elems e i (e - int64_min) acc r", OF _ assms], intro impI)
  fix f i e acc r
  assume IH: "\<And>i e acc r. f i e acc = Some r \<Longrightarrow> i \<le> int64_max \<longrightarrow> int64_min \<le> e \<longrightarrow> range_elems e i (e - int64_min) acc r"
    and body: "(if i \<ge> e then f (int64_wrap (i - 1)) e (acc @ [show_int i]) else Some acc) = Some r"
    and i: "i \<le> int64_max" and e: "int64_min \<le> e"
  show "range_elems e i (e - int64_min) acc r"
  proof (cases "i \<ge> e")
    case False
    with body show ?thesis by (simp add: range_elems_def)
  next
    case True
    with body have rec: "f (int64_wrap (i - 1)) e (acc @ [show_int i]) = Some r"
      by simp
    have "int64_wrap (i - 1) \<le> int64_max"
      using int64_wrap_range by blast
    with IH [OF rec] e have ih: "range_elems e (int64_wrap (i - 1)) (e - int64_min) (acc @ [show_int i]) r"
      by blast
    have "e \<le> e \<and> int64_wrap (i - 1) \<le> i \<or> e - int64_min = 0"
    proof (cases "int64_min \<le> i - 1")
      case True
      with i have "int64_wrap (i - 1) = i - 1" by (intro int64_wrap_id) auto
      then show ?thesis by simp
    next
      case False
      with \<open>i \<ge> e\<close> e show ?thesis by simp
    qed
    with ih i e True show ?thesis
      by (intro range_elemsI [OF ih]) auto
  qed
qed


lemma range_elems_length:
  assumes "range_elems lo hi w [] r" and "x \<in> set r"
    and "\<bar>lo\<bar> < 10 ^ k" "\<bar>hi\<bar> < 10 ^ k" "0 < k"
    and "w = 0 \<longrightarrow> 19 \<le> k"
  shows "length x \<le> k + 1"
proof -
  from assms(1,2) obtain j where j: "x = show_int j" "int64_min \<le> j" "j \<le> int64_max"
      "lo \<le> j \<and> j \<le> hi \<or> w = 0"
    by (auto simp: range_elems_def)
  have "\<bar>j\<bar> < 10 ^ k"
  proof (cases "w = 0")
    case False
    with j assms(3,4) show ?thesis by linarith
  next
    case True
    with assms(6) have "(10::int) ^ 19 \<le> 10 ^ k"
      by (intro power_increasing) auto
    moreover have "\<bar>j\<bar> < 10 ^ 19"
      using j(2,3) unfolding int64_min_def int64_max_def by simp
    ultimately show ?thesis by linarith
  qed
  from show_int_length [OF this assms(5)] j(1) show ?thesis
    by simp
qed

lemma pow10_big: "(10::int) ^ 18 \<le> \<bar>v\<bar> \<Longrightarrow> \<bar>v\<bar> < 10 ^ k \<Longrightarrow> 19 \<le> k"
proof (rule ccontr)
  assume a: "(10::int) ^ 18 \<le> \<bar>v\<bar>" "\<bar>v\<bar> < 10 ^ k" and "\<not> 19 \<le> k"
  then have "k \<le> 18" by simp
  then have "(10::int) ^ k \<le> 10 ^ 18"
    by (intro power_increasing) auto
  with a show False by linarith
qed

lemma expandRange_length:
  assumes "expandRange s e = Some r" and "x \<in> set r"
  shows "length x \<le> length s + length e + 1"
proof (cases "Sscanf_d s")
  case None
  with assms show ?thesis
    by (auto simp: expandRange_def Let_def string_of_rune_def split: if_splits)
next
  case (Some sv)
  note s = this
  show ?thesis
  proof (cases "Sscanf_d e")
    case None
    with s assms show ?thesis
      by (auto simp: expandRange_def Let_def string_of_rune_def split: if_splits)
  next
    case (Some ev)
    let ?k = "max (length s) (length e)"
    from Sscanf_d_bound [OF s] have sb: "\<bar>sv\<bar> < 10 ^ length s" "0 < length s" "int64_min \<le> sv" "sv \<le> int64_max"
      by auto
    from Sscanf_d_bound [OF Some] have eb: "\<bar>ev\<bar> < 10 ^ length e" "0 < length e" "int64_min \<le> ev" "ev \<le> int64_max"
      by auto
    have p: "(10::int) ^ length s \<le> 10 ^ ?k" "(10::int) ^ length e \<le> 10 ^ ?k"
      by (intro power_increasing; simp)+
    have k: "\<bar>sv\<bar> < 10 ^ ?k" "\<bar>ev\<bar> < 10 ^ ?k" "0 < ?k"
      using sb(1) p(1) apply linarith
      using eb(1) p(2) apply linarith
      using sb(2) eb(2) by (simp add: max_def)
    have "length x \<le> ?k + 1"
    proof (cases "sv \<le> ev")
      case True
      with assms s Some have "range_up sv ev [] = Some r"
        by (simp add: expandRange_def)
      from range_up_elems [OF this] sb eb have re: "range_elems sv ev (int64_max - ev) [] r"
        by simp
      have "int64_max - ev = 0 \<longrightarrow> 19 \<le> ?k"
      proof
        assume "int64_max - ev = 0"
        then have "(10::int) ^ 18 \<le> \<bar>ev\<bar>"
          unfolding int64_max_def by simp
        from pow10_big [OF this k(2)] show "19 \<le> ?k" .
      qed
      from range_elems_length [OF re assms(2) k this] show ?thesis .
    next
      case False
      with assms s Some have "range_down sv ev [] = Some r"
        by (simp add: expandRange_def)
      from range_down_elems [OF this] sb eb have re: "range_elems ev sv (ev - int64_min) [] r"
        by simp
      have "ev - int64_min = 0 \<longrightarrow> 19 \<le> ?k"
      proof
        assume "ev - int64_min = 0"
        then have "(10::int) ^ 18 \<le> \<bar>ev\<bar>"
          unfolding int64_min_def by simp
        from pow10_big [OF this k(2)] show "19 \<le> ?k" .
      qed
      from range_elems_length [OF re assms(2) k(2) k(1) k(3) this] show ?thesis .
    qed
    with sb(2) eb(2) show ?thesis by simp
  qed
qed


lemma split_from_elem_length:
  "x \<in> set (split_from sep acc s) \<Longrightarrow> length x \<le> length acc + length s"
proof (induction sep acc s rule: split_from.induct)
  case (1 sep acc)
  then show ?case by simp
next
  case (2 sep acc c cs)
  show ?case
  proof (cases "sep \<noteq> [] \<and> prefix sep (c # cs)")
    case True
    with 2(3) have "x = rev acc \<or> x \<in> set (split_from sep [] (drop (length sep) (c # cs)))"
      by simp
    with 2(1) [OF True] show ?thesis by auto
  next
    case False
    with 2(3) have "x \<in> set (split_from sep (c # acc) cs)"
      by auto
    with 2(2) [OF False] show ?thesis by simp
  qed
qed

lemma split_from_nonempty: "split_from sep acc s \<noteq> []"
  by (induction sep acc s rule: split_from.induct) auto

lemma split_from_total_length:
  "sum_list (map length (split_from sep acc s)) + (length (split_from sep acc s) - 1) * length sep
     = length acc + length s"
proof (induction sep acc s rule: split_from.induct)
  case (1 sep acc)
  then show ?case by simp
next
  case (2 sep acc c cs)
  show ?case
  proof (cases "sep \<noteq> [] \<and> prefix sep (c # cs)")
    case True
    then have "prefix sep (c # cs)" by simp
    then have len: "length sep \<le> length (c # cs)"
      by (rule prefix_length_le)
    have ne: "0 < length (split_from sep [] (drop (length sep) (c # cs)))"
      using split_from_nonempty by blast
    from 2(1) [OF True] True len ne show ?thesis
      by (cases "length (split_from sep [] (drop (length sep) (c # cs)))") (auto simp: algebra_simps)
  next
    case False
    with 2(2) [OF False] show ?thesis by auto
  qed
qed

lemma trim_left_length: "length (trim_left s) \<le> length s"
proof (induction s rule: trim_left.induct)
  case (1 s)
  show ?case
  proof (cases "leading_space s")
    case None
    then show ?thesis by (simp add: trim_left.simps [of s])
  next
    case (Some n)
    with 1 [OF Some] show ?thesis
      by (simp add: trim_left.simps [of s])
  qed
qed

lemma trim_right_length: "length (trim_right s) \<le> length s"
proof (induction s rule: trim_right.induct)
  case (1 s)
  show ?case
  proof (cases "trailing_space s")
    case None
    then show ?thesis by (simp add: trim_right.simps [of s])
  next
    case (Some n)
    with 1 [OF Some] show ?thesis
      by (simp add: trim_right.simps [of s])
  qed
qed

lemma TrimSpace_length: "length (strings_TrimSpace s) \<le> length s"
  unfolding strings_TrimSpace_def
  using trim_right_length [of "trim_left s"] trim_left_length [of s] by linarith

lemma match_brace_bounds: "match_brace i depth cs = Some j \<Longrightarrow> i \<le> j \<and> j < i + length cs"
proof (induction cs arbitrary: i depth)
  case Nil
  then show ?case by simp
next
  case (Cons c cs)
  then show ?case
    by (fastforce split: if_splits)
qed

lemma IndexByte_le: "strings_IndexByte s c = Some i \<Longrightarrow> i \<le> length s"
  by (auto simp: strings_IndexByte_def length_takeWhile_le split: if_splits)


lemma brace_expansions_length:
  assumes "brace_expansions content = Some exps" and "x \<in> set exps"
  shows "length x \<le> length content"
proof -
  let ?parts = "strings_Split content ''..''"
  have comma: "length y \<le> length content"
    if "y \<in> set (map strings_TrimSpace (strings_Split content '',''))" for y
  proof -
    from that obtain p where p: "p \<in> set (strings_Split content '','')" "y = strings_TrimSpace p"
      by auto
    from p(1) have "length p \<le> length content"
      using split_from_elem_length [of p "'',''" "[]" content] by (simp add: strings_Split_def)
    with p(2) TrimSpace_length [of p] show ?thesis by simp
  qed
  show ?thesis
  proof (cases "strings_Contains content ''..'' \<and> length ?parts = 2")
    case False
    with assms have "x \<in> set (map strings_TrimSpace (strings_Split content '',''))"
      by (auto simp: brace_expansions_def Let_def split: if_splits)
    then show ?thesis by (rule comma)
  next
    case True
    let ?s = "strings_TrimSpace (?parts ! 0)" and ?e = "strings_TrimSpace (?parts ! 1)"
    from True assms obtain r where r: "expandRange ?s ?e = Some r"
      and x: "x \<in> set r \<or> x \<in> set (map strings_TrimSpace (strings_Split content '',''))"
      by (auto simp: brace_expansions_def Let_def split: if_splits option.splits)
    from x show ?thesis
    proof
      assume "x \<in> set (map strings_TrimSpace (strings_Split content '',''))"
      then show ?thesis by (rule comma)
    next
      assume "x \<in> set r"
      from expandRange_length [OF r this] have "length x \<le> length ?s + length ?e + 1" .
      moreover have "length ?s \<le> length (?parts ! 0)" "length ?e \<le> length (?parts ! 1)"
        by (rule TrimSpace_length)+
      moreover from True obtain p0 p1 where ps: "?parts = [p0, p1]"
        by (cases ?parts; cases "tl ?parts") auto
      have "length p0 + length p1 + 2 = length content"
        using split_from_total_length [of "''..''" "[]" content] ps
        by (simp add: strings_Split_def)
      ultimately show ?thesis using ps by simp
    qed
  qed
qed

lemma recombined_shorter:
  assumes "strings_IndexByte pattern c = Some start"
    and "match_brace start 0 (drop start pattern) = Some end_idx"
    and "length x \<le> length (take (end_idx - (start + 1)) (drop (start + 1) pattern))"
  shows "length (take start pattern @ x @ drop (end_idx + 1) pattern) < length pattern"
proof -
  from assms(1) have s: "start \<le> length pattern" by (rule IndexByte_le)
  from match_brace_bounds [OF assms(2)] s have e: "start \<le> end_idx" "end_idx < length pattern"
    by auto
  from assms(3) have "length x \<le> end_idx - (start + 1)" by simp
  with s e show ?thesis by simp
qed

text \<open>
  \<^verbatim>\<open>expandBraces\<close>. The first opening brace and its closing brace are found, the text
  between them is expanded, and every recombined pattern is expanded again. \<open>None\<close> is
  returned only where a numeric range never ends.
\<close>

function expandBraces :: "string \<Rightarrow> string list option" where
  "expandBraces pattern =
     (case strings_IndexByte pattern CHR ''{'' of
        None \<Rightarrow> Some [pattern]
      | Some start \<Rightarrow>
     (case match_brace start 0 (drop start pattern) of
        None \<Rightarrow> Some [pattern]
      | Some end_idx \<Rightarrow>
          (let prefix_str = take start pattern;
               braceContent = take (end_idx - (start + 1)) (drop (start + 1) pattern);
               suffix_str = drop (end_idx + 1) pattern
           in (case brace_expansions braceContent of
                 None \<Rightarrow> None
               | Some expansions \<Rightarrow>
                   append_all
                     (map (\<lambda>exp. expandBraces (prefix_str @ exp @ suffix_str)) expansions)))))"
  by pat_completeness auto
termination
proof (relation "measure length", goal_cases)
  case 1
  show ?case by simp
next
  case (2 pattern start end_idx prefix_str braceContent suffix_str expansions exp)
  from 2(6,7) have "length exp \<le> length braceContent"
    by (rule brace_expansions_length)
  with 2(1,2) show ?case
    unfolding 2(3,4,5) in_measure by (intro recombined_shorter)
qed

declare expandBraces.simps [simp del]


subsection \<open>\<^verbatim>\<open>expandPatterns\<close>\<close>

text \<open>Appending a path unless it was seen before; \<open>seen\<close> is the Go map used as a set.\<close>

definition add_unseen :: "string \<Rightarrow> string list \<times> string set \<Rightarrow> string list \<times> string set" where
  "add_unseen x st =
     (case st of (result, seen) \<Rightarrow>
        if x \<notin> seen then (result @ [x], insert x seen) else (result, seen))"

text \<open>
  \<^verbatim>\<open>filepath.Glob\<close>. A pattern without one of the metacharacters \<^verbatim>\<open>*\<close>, \<^verbatim>\<open>?\<close>, \<^verbatim>\<open>[\<close> and backslash
  is well-formed and is looked up with \<^verbatim>\<open>os.Lstat\<close>: it is the only match if that succeeds,
  and there is no match otherwise. \<^verbatim>\<open>os.Lstat\<close> of a path is the \<^verbatim>\<open>Info()\<close> of its node.
\<close>

definition hasMeta :: "string \<Rightarrow> bool" where
  "hasMeta path = list_ex (\<lambda>c. c \<in> set [CHR ''*'', CHR ''?'', CHR ''['', CHR 0x5C]) path"

definition filepath_Glob :: "world \<Rightarrow> string \<Rightarrow> error + string list" where
  "filepath_Glob w pattern =
     (if hasMeta pattern then glob w pattern
      else (case entry_info (lookup w pattern) of
              Inl err \<Rightarrow> Inr []
            | Inr info \<Rightarrow> Inr [pattern]))"

text \<open>The inner loop: globbing each brace-expanded pattern.\<close>

fun expand_globs ::
  "world \<Rightarrow> string list \<Rightarrow> string list \<times> string set \<Rightarrow> error + (string list \<times> string set)" where
  "expand_globs w [] st = Inr st"
| "expand_globs w (exp # rest) st =
     (case filepath_Glob w exp of
        Inl err \<Rightarrow> Inl (Failure (''invalid pattern '' @ exp @ '': '' @ error_text err))
      | Inr matches \<Rightarrow>
          if length matches = 0 then expand_globs w rest (add_unseen exp st)
          else expand_globs w rest (fold add_unseen matches st))"

text \<open>The outer loop over the patterns.\<close>

fun expand_each ::
  "world \<Rightarrow> string list \<Rightarrow> string list \<times> string set \<Rightarrow> (error + string list) option" where
  "expand_each w [] st = Some (Inr (fst st))"
| "expand_each w (pattern # rest) st =
     (case expandBraces pattern of
        None \<Rightarrow> None
      | Some expanded \<Rightarrow>
          (case expand_globs w expanded st of
             Inl err \<Rightarrow> Some (Inl err)
           | Inr st' \<Rightarrow> expand_each w rest st'))"

definition expandPatterns :: "world \<Rightarrow> string list \<Rightarrow> (error + string list) option" where
  "expandPatterns w patterns = expand_each w patterns ([], {})"

section \<open>The lister of \<^verbatim>\<open>src/unnamed/part_000\<close>\<close>

text \<open>
  The comparison closure of \<^verbatim>\<open>sortEntries\<close> in \<^verbatim>\<open>src/unnamed/part_000\<close>: when either
  \<^verbatim>\<open>Info()\<close> fails the names are compared.
\<close>

definition less_cmd :: "command \<Rightarrow> node \<Rightarrow> node \<Rightarrow> bool" where
  "less_cmd p ei ej =
     (let sortBy = SortBy (Flags p);
          lt =
            (if sortBy = ''time'' then
               (case (entry_info ei, entry_info ej) of
                  (Inr infoI, Inr infoJ) \<Rightarrow> ModTime infoI > ModTime infoJ
                | _ \<Rightarrow> entry_name ei < entry_name ej)
             else if sortBy = ''size'' then
               (case (entry_info ei, entry_info ej) of
                  (Inr infoI, Inr infoJ) \<Rightarrow> sint (Size infoI) > sint (Size infoJ)
                | _ \<Rightarrow> entry_name ei < entry_name ej)
             else entry_name ei < entry_name ej)
      in if Reverse (Flags p) then \<not> lt else lt)"

definition sortEntries_cmd :: "command \<Rightarrow> world \<Rightarrow> node list \<Rightarrow> panic + node list" where
  "sortEntries_cmd p w entries =
     sort_Slice (pdqsort w) (\<lambda>ei ej. Inr (less_cmd p ei ej)) entries"

definition formatLong :: "command \<Rightarrow> world \<Rightarrow> string \<Rightarrow> fileinfo \<Rightarrow> panic + string" where
  "formatLong p w path info =
     (let mode = FileMode_String (Mode info);
          sz = Size info;
          modTime = format_DateTime w (ModTime info);
          name = filepath_Base path
      in case (if HumanReadable (Flags p) then formatHumanReadable sz
               else Inr (show_int (sint sz))) of
           Inl pn \<Rightarrow> Inl pn
         | Inr sizeStr \<Rightarrow>
             Inr (mode @ '' '' @ pad_left 10 sizeStr @ '' '' @ modTime @ '' '' @ name))"

definition formatEntry :: "command \<Rightarrow> world \<Rightarrow> string \<Rightarrow> fileinfo \<Rightarrow> panic + string" where
  "formatEntry p w path info =
     (if LongFormat (Flags p) then formatLong p w path info else Inr (filepath_Base path))"

text \<open>The output loop of \<^verbatim>\<open>listSingle\<close>.\<close>

fun listSingle_entries :: "command \<Rightarrow> world \<Rightarrow> string \<Rightarrow> node list \<Rightarrow> io \<Rightarrow> panic + io" where
  "listSingle_entries p w dirPath [] out = Inr out"
| "listSingle_entries p w dirPath (entry # rest) out =
     (let fullPath = filepath_Join dirPath (entry_name entry) in
      case entry_info entry of
        Inl err \<Rightarrow>
          listSingle_entries p w dirPath rest
            (out\<lparr>stderr := Fprintln (diagnostic fullPath err) (stderr out)\<rparr>)
      | Inr info \<Rightarrow>
          (case formatEntry p w fullPath info of
             Inl pn \<Rightarrow> Inl pn
           | Inr line \<Rightarrow>
               listSingle_entries p w dirPath rest (out\<lparr>stdout := Fprintln line (stdout out)\<rparr>)))"

text \<open>\<^verbatim>\<open>listSingle\<close>: one directory, its entries filtered, sorted and printed.\<close>

definition listSingle :: "command \<Rightarrow> world \<Rightarrow> string \<Rightarrow> node \<Rightarrow> io \<Rightarrow> panic + (error option \<times> io)" where
  "listSingle p w dirPath nd out =
     (case dir_error nd of
        Some err \<Rightarrow> Inr (Some err, out)
      | None \<Rightarrow>
          let filtered = filter (\<lambda>entry. \<not> (\<not> AllFiles (Flags p) \<and> hidden_name (entry_name entry)))
                           (dir_entries nd)
          in (case sortEntries_cmd p w filtered of
                Inl pn \<Rightarrow> Inl pn
              | Inr sorted_entries \<Rightarrow>
                  (case listSingle_entries p w dirPath sorted_entries out of
                     Inl pn \<Rightarrow> Inl pn
                   | Inr out' \<Rightarrow> Inr (None, out'))))"

subsection \<open>\<^verbatim>\<open>filepath.WalkDir\<close>\<close>

text \<open>
  What a walk function returns: \<^verbatim>\<open>nil\<close>, \<^verbatim>\<open>filepath.SkipDir\<close>, \<^verbatim>\<open>filepath.SkipAll\<close> or another
  error.
\<close>

datatype walk_result = Proceed | SkipDir | SkipAll | Abort error

text \<open>The \<^verbatim>\<open>fs.DirEntry\<close> handed to the walk function: \<^verbatim>\<open>Name()\<close>, \<^verbatim>\<open>IsDir()\<close>, \<^verbatim>\<open>Info()\<close>.\<close>

datatype dirent = DirEnt (d_name: string) (d_is_dir: bool) (d_info: "error + fileinfo")

definition dirent_of :: "node \<Rightarrow> dirent" where
  "dirent_of nd = DirEnt (entry_name nd) (entry_is_dir nd) (entry_info nd)"

type_synonym 's walk_fn =
  "string \<Rightarrow> dirent option \<Rightarrow> error option \<Rightarrow> 's \<Rightarrow> panic + (walk_result \<times> 's)"

text \<open>
  The library's \<^verbatim>\<open>walkDir\<close>: the function is called on the entry; a directory is then
  read (a read error is reported by a second call, and the entries read so far are
  still walked) and its entries are walked in turn. \<^verbatim>\<open>SkipDir\<close> from a directory skips it,
  \<^verbatim>\<open>SkipDir\<close> from anything else ends the walk of the directory that holds it.
\<close>

fun walkDir :: "'s walk_fn \<Rightarrow> string \<Rightarrow> dirent \<Rightarrow> node \<Rightarrow> 's \<Rightarrow> panic + (walk_result \<times> 's)"
  and walkDir_entries :: "'s walk_fn \<Rightarrow> string \<Rightarrow> node list \<Rightarrow> 's \<Rightarrow> panic + (walk_result \<times> 's)"
where
  "walkDir fn path d (Node nm isd linfo sinfo entries rd_err) s =
     (case fn path (Some d) None s of
        Inl pn \<Rightarrow> Inl pn
      | Inr (r, s1) \<Rightarrow>
          if r \<noteq> Proceed \<or> \<not> d_is_dir d then
            Inr (if r = SkipDir \<and> d_is_dir d then Proceed else r, s1)
          else
            (case rd_err of
               None \<Rightarrow> walkDir_entries fn path entries s1
             | Some err \<Rightarrow>
                 (case fn path (Some d) (Some err) s1 of
                    Inl pn \<Rightarrow> Inl pn
                  | Inr (r2, s2) \<Rightarrow>
                      if r2 \<noteq> Proceed then
                        Inr (if r2 = SkipDir \<and> d_is_dir d then Proceed else r2, s2)
                      else walkDir_entries fn path entries s2)))"
| "walkDir_entries fn path [] s = Inr (Proceed, s)"
| "walkDir_entries fn path (d1 # rest) s =
     (case walkDir fn (filepath_Join path (entry_name d1)) (dirent_of d1) d1 s of
        Inl pn \<Rightarrow> Inl pn
      | Inr (r, s1) \<Rightarrow>
          if r \<noteq> Proceed then Inr (if r = SkipDir then Proceed else r, s1)
          else walkDir_entries fn path rest s1)"

text \<open>
  \<^verbatim>\<open>filepath.WalkDir(root, fn)\<close>: the root is read with \<^verbatim>\<open>os.Lstat\<close>, which is the
  \<^verbatim>\<open>Info()\<close> of its node; its entry is made from that \<^verbatim>\<open>FileInfo\<close>.
\<close>

definition WalkDir :: "'s walk_fn \<Rightarrow> string \<Rightarrow> node \<Rightarrow> 's \<Rightarrow> panic + (error option \<times> 's)" where
  "WalkDir fn root nd s =
     (case (case entry_info nd of
              Inl err \<Rightarrow> fn root None (Some err) s
            | Inr info \<Rightarrow>
                walkDir fn root (DirEnt (filepath_Base root) (IsDir info) (Inr info)) nd s) of
        Inl pn \<Rightarrow> Inl pn
      | Inr (r, s') \<Rightarrow>
          Inr (case r of Abort err \<Rightarrow> Some err | _ \<Rightarrow> None, s'))"

subsection \<open>\<^verbatim>\<open>listRecursive\<close>, \<^verbatim>\<open>listDirectory\<close> and \<^verbatim>\<open>Executor\<close>\<close>

text \<open>The function that \<^verbatim>\<open>listRecursive\<close> hands to \<^verbatim>\<open>WalkDir\<close>.\<close>

definition listRecursive_fn :: "command \<Rightarrow> world \<Rightarrow> string \<Rightarrow> io walk_fn" where
  "listRecursive_fn p w dirPath path d err out =
     (case err of
        Some e \<Rightarrow> Inr (Proceed, out\<lparr>stderr := Fprintln (diagnostic path e) (stderr out)\<rparr>)
      | None \<Rightarrow>
     (case d of
        None \<Rightarrow> Inl NilDereference
      | Some d \<Rightarrow>
          if \<not> AllFiles (Flags p) \<and> hidden_name (d_name d) \<and> path \<noteq> dirPath then
            (if d_is_dir d then Inr (SkipDir, out) else Inr (Proceed, out))
          else
            (case d_info d of
               Inl e \<Rightarrow> Inr (Proceed, out\<lparr>stderr := Fprintln (diagnostic path e) (stderr out)\<rparr>)
             | Inr info \<Rightarrow>
                 (case formatEntry p w path info of
                    Inl pn \<Rightarrow> Inl pn
                  | Inr line \<Rightarrow> Inr (Proceed, out\<lparr>stdout := Fprintln line (stdout out)\<rparr>)))))"

definition listRecursive :: "command \<Rightarrow> world \<Rightarrow> string \<Rightarrow> node \<Rightarrow> io \<Rightarrow> panic + (error option \<times> io)" where
  "listRecursive p w dirPath nd out = WalkDir (listRecursive_fn p w dirPath) dirPath nd out"

definition listDirectory :: "command \<Rightarrow> world \<Rightarrow> string \<Rightarrow> node \<Rightarrow> io \<Rightarrow> panic + (error option \<times> io)" where
  "listDirectory p w dirPath nd out =
     (if Recursive (Flags p) then listRecursive p w dirPath nd out
      else listSingle p w dirPath nd out)"

text \<open>The loop of \<^verbatim>\<open>Executor\<close> over the expanded paths.\<close>

fun Executor_paths :: "command \<Rightarrow> world \<Rightarrow> string list \<Rightarrow> io \<Rightarrow> panic + io" where
  "Executor_paths p w [] out = Inr out"
| "Executor_paths p w (path # rest) out =
     (case path_stat (lookup w path) of
        Inl err \<Rightarrow>
          Executor_paths p w rest (out\<lparr>stderr := Fprintln (diagnostic path err) (stderr out)\<rparr>)
      | Inr info \<Rightarrow>
          if \<not> IsDir info then
            (case formatEntry p w path info of
               Inl pn \<Rightarrow> Inl pn
             | Inr output \<Rightarrow>
                 Executor_paths p w rest (out\<lparr>stdout := Fprintln output (stdout out)\<rparr>))
          else
            (case listDirectory p w path (lookup w path) out of
               Inl pn \<Rightarrow> Inl pn
             | Inr (Some err, out') \<Rightarrow>
                 Executor_paths p w rest
                   (out'\<lparr>stderr := Fprintln (diagnostic path err) (stderr out')\<rparr>)
             | Inr (None, out') \<Rightarrow> Executor_paths p w rest out'))"

text \<open>
  \<^verbatim>\<open>Executor\<close>. \<open>None\<close>: the brace expansion never returns. Otherwise a panic, or the
  returned error and the two streams.
\<close>

definition Executor :: "command \<Rightarrow> world \<Rightarrow> io \<Rightarrow> (panic + (error option \<times> io)) option" where
  "Executor p w out =
     (let patterns = (if length (Positional p) = 0 then [''.''] else Positional p)
      in case expandPatterns w patterns of
           None \<Rightarrow> None
         | Some (Inl err) \<Rightarrow>
             Some (Inr (Some err, out\<lparr>stderr := Fprintln (''ls: '' @ error_text err) (stderr out)\<rparr>))
         | Some (Inr expanded) \<Rightarrow>
             let paths = (if length expanded = 0 then patterns else expanded)
             in (case Executor_paths p w paths out of
                   Inl pn \<Rightarrow> Some (Inl pn)
                 | Inr out' \<Rightarrow> Some (Inr (None, out'))))"

section \<open>Example data\<close>

text \<open>
  Concrete flags, file-system nodes and worlds, on which the theorems below are
  instantiated: a regular file (mode \<^verbatim>\<open>-rw-r--r--\<close>), a directory (mode \<^verbatim>\<open>drwxr-xr-x\<close>) and
  an entry of the directory \<open>dir\<close> that was removed after the directory was read, so that
  its \<^verbatim>\<open>Info()\<close> fails. The errors are the \<^verbatim>\<open>*fs.PathError\<close> values of the system calls, which
  print as the operation, the path and the reason.
\<close>

definition plain_flags :: flags where
  "plain_flags = \<lparr>LongFormat = False, AllFiles = False, HumanReadable = False,
                   Recursive = False, Reverse = False, SortBy = ''name''\<rparr>"

definition file_info :: "64 word \<Rightarrow> int \<Rightarrow> fileinfo" where
  "file_info sz t = \<lparr>Mode = 420, Size = sz, ModTime = t\<rparr>"

definition dir_info :: "int \<Rightarrow> fileinfo" where
  "dir_info t = \<lparr>Mode = 2147484141, Size = 4096, ModTime = t\<rparr>"

definition PathError :: "string \<Rightarrow> string \<Rightarrow> string \<Rightarrow> error" where
  "PathError op path reason = Failure (op @ '' '' @ path @ '': '' @ reason)"

text \<open>
  A regular file. Neither lister reads it as a directory; the error of doing so is the one
  for the file as a path argument.
\<close>

definition file_node :: "string \<Rightarrow> 64 word \<Rightarrow> int \<Rightarrow> node" where
  "file_node name sz t =
     Node name False (Inr (file_info sz t)) (Inr (file_info sz t)) []
       (Some (PathError ''readdirent'' name ''not a directory''))"

definition dir_node :: "string \<Rightarrow> int \<Rightarrow> node list \<Rightarrow> node" where
  "dir_node name t entries = Node name True (Inr (dir_info t)) (Inr (dir_info t)) entries None"

definition vanished_node :: "string \<Rightarrow> string \<Rightarrow> node" where
  "vanished_node dir name =
     Node name False
       (Inl (PathError ''lstat'' (dir @ ''/'' @ name) ''no such file or directory''))
       (Inl (PathError ''stat'' (dir @ ''/'' @ name) ''no such file or directory'')) []
       (Some (PathError ''open'' (dir @ ''/'' @ name) ''no such file or directory''))"

text \<open>
  A stand-in for the library's sort of long slices in the example worlds: the decision
  trees of insertion sort. \<open>i\<close> is the element being inserted, \<open>j\<close> the place it has reached.
\<close>

function insertion_plan :: "nat \<Rightarrow> nat \<Rightarrow> nat \<Rightarrow> plan" where
  "insertion_plan n i j =
     (if 0 < j then
        Less j (j - 1)
          (\<lambda>b. if b then Swap j (j - 1) (insertion_plan n i (j - 1))
               else if i + 1 < n then insertion_plan n (i + 1) (i + 1) else Stop)
      else (if i + 1 < n then insertion_plan n (i + 1) (i + 1) else Stop))"
  by pat_completeness auto
termination
  by (relation "measures [\<lambda>(n, i, j). n - i, \<lambda>(n, i, j). j]") auto

declare insertion_plan.simps [simp del]

lemma insertion_plan_within: "j \<le> i \<Longrightarrow> (0 < j \<Longrightarrow> i < n) \<Longrightarrow> within n (insertion_plan n i j)"
proof (induction n i j rule: insertion_plan.induct)
  case (1 n i j)
  have nxt: "within n (if i + 1 < n then insertion_plan n (i + 1) (i + 1) else Stop)"
  proof (cases "0 < j")
    case True
    from 1(2) [OF True, of False] show ?thesis by simp
  next
    case False
    from 1(3) [OF False] show ?thesis by simp
  qed
  show ?case
  proof (cases "0 < j")
    case True
    with 1(5) have "i < n" by simp
    moreover from 1(4) True have "j - 1 \<le> i" by simp
    ultimately have "within n (insertion_plan n i (j - 1))"
      using 1(1) [OF True, of True] by simp
    with True \<open>i < n\<close> 1(4) nxt show ?thesis
      by (subst insertion_plan.simps) simp
  next
    case False
    with nxt show ?thesis
      by (subst insertion_plan.simps) simp
  qed
qed

definition insertion_plans :: long_sort where
  "insertion_plans = Abs_long_sort (\<lambda>n. insertion_plan n 0 0)"

lemma plan_for_insertion_plans [code abstract]:
  "plan_for insertion_plans = (\<lambda>n. insertion_plan n 0 0)"
  by (simp add: insertion_plans_def Abs_long_sort_inverse insertion_plan_within)

text \<open>The stand-in sorts; here a slice of thirteen elements.\<close>

lemma run_insertion_plan:
  "run_plan lt (insertion_plan n i j) xs =
     (if 0 < j then
        (if j < length xs \<and> j - 1 < length xs then
           (case lt (xs ! j) (xs ! (j - 1)) of
              Inl pn \<Rightarrow> Inl pn
            | Inr b \<Rightarrow>
                if b then run_plan lt (insertion_plan n i (j - 1)) (xs[j := xs ! (j - 1), j - 1 := xs ! j])
                else if i + 1 < n then run_plan lt (insertion_plan n (i + 1) (i + 1)) xs else Inr xs)
         else Inl IndexOutOfRange)
      else if i + 1 < n then run_plan lt (insertion_plan n (i + 1) (i + 1)) xs else Inr xs)"
  by (subst insertion_plan.simps) (auto split: sum.split)

lemma long_sort_example:
  "sort_Slice insertion_plans (\<lambda>x y. Inr (x < y)) [13, 12, 11, 10, 9, 8, 7, 6, 5, 4, 3, 2, 1 :: nat] =
     Inr [1, 2, 3, 4, 5, 6, 7, 8, 9, 10, 11, 12, 13]"
  by (simp add: sort_Slice_def plan_for_insertion_plans run_insertion_plan)

definition world_of :: "(string \<Rightarrow> node) \<Rightarrow> world" where
  "world_of f = \<lparr>lookup = f, glob = (\<lambda>pattern. Inr []),
                 format_Stamp = (\<lambda>t. ''Jan  1 00:00:00''),
                 format_DateTime = (\<lambda>t. ''1970-01-01 00:00:00''),
                 pdqsort = insertion_plans\<rparr>"

definition scenario_dir :: node where
  "scenario_dir =
     dir_node ''d'' 0 [file_node ''.hidden'' 1 1, file_node ''b.txt'' 3 2, file_node ''a.txt'' 5 3]"

text \<open>The same directory with an entry \<open>gone\<close> that was removed after the directory was read.\<close>

definition mixed_dir :: node where
  "mixed_dir =
     dir_node ''d'' 0 [file_node ''.hidden'' 1 1, file_node ''b.txt'' 3 2,
                       vanished_node ''d'' ''gone'', file_node ''a.txt'' 5 3]"





definition no_output :: io where
  "no_output = \<lparr>stdout = [], stderr = []\<rparr>"

lemma IsDir_dir_info: "IsDir (dir_info t)"
  by (simp add: IsDir_def dir_info_def bit_iff_odd_drop_bit drop_bit_eq_div)


lemmas example_defs = plain_flags_def file_node_def dir_node_def vanished_node_def
  PathError_def world_of_def no_output_def


lemma Join_examples:
  "filepath_Join ''d'' ''a.txt'' = ''d/a.txt''"
  "filepath_Join ''d'' ''sub'' = ''d/sub''"
  "filepath_Join ''d/sub'' ''x'' = ''d/sub/x''"
  "filepath_Join ''d'' ''a'' = ''d/a''"
  by (simp_all add: filepath_Join_def filepath_Clean_def strings_Split_def clean_step_def)

lemma Join_gone: "filepath_Join ''d'' ''gone'' = ''d/gone''"
  by (simp add: filepath_Join_def filepath_Clean_def strings_Split_def clean_step_def)


text \<open>Evaluation rules for the size formatters on numerals.\<close>

lemma bit_length_numeral:
  "bit_length (numeral (Num.Bit0 n)) = 1 + bit_length (numeral n)"
  "bit_length (numeral (Num.Bit1 n)) = 1 + bit_length (numeral n)"
  "bit_length 0 = 0"
  "bit_length 1 = 1"
  "bit_length (Suc 0) = 1"
  by (subst bit_length.simps, simp add: bit_length.simps [of 0])+

lemmas render_simps = scale_loop.simps index_slice_def int64_wrap_def sprintf_1f_def
  float64_of_int_def round_half_even_def bit_length_numeral show_int_def show_nat.simps
  digit_char_def Let_def

section \<open>The listers use the flags of the command only\<close>

lemma less_ls_flags: "Flags c = Flags c' \<Longrightarrow> less_ls c = less_ls c'"
  by (intro ext) (simp add: less_ls_def split: sum.split prod.split)

lemma sortEntries_ls_flags: "Flags c = Flags c' \<Longrightarrow> sortEntries_ls c = sortEntries_ls c'"
  by (intro ext) (simp add: sortEntries_ls_def less_ls_flags [of c c'] split: sum.split prod.split option.split)

lemma printFile_flags: "Flags c = Flags c' \<Longrightarrow> printFile c = printFile c'"
  by (intro ext) (simp add: printFile_def printLongFormat_def split: sum.split)

lemma filter_entries_flags:
  "Flags c = Flags c' \<Longrightarrow> filter_entries c i es items ctx = filter_entries c' i es items ctx"
  by (induction c i es items ctx rule: filter_entries.induct) (auto split: prod.splits option.splits)

lemma listPath_flags:
  "Flags c = Flags c' \<Longrightarrow> listPath c w path nd ctx out = listPath c' w path nd ctx out"
  "Flags c = Flags c' \<Longrightarrow>
     listPath_entries c w path i es ctx out = listPath_entries c' w path i es ctx out"
proof (induction c w path nd ctx out and c w path i es ctx out rule: listPath_listPath_entries.induct)
  case (1 c w path nd ctx out)
  note fl = \<open>Flags c = Flags c'\<close>
  note eqs = sortEntries_ls_flags [OF fl] printFile_flags [OF fl] filter_entries_flags [OF fl]
  show ?case
    unfolding listPath.simps [of c w path nd ctx out] listPath.simps [of c' w path nd ctx out] eqs
    using 1 unfolding eqs
    by (auto split: prod.splits option.splits sum.splits)
next
  case (2 c w path i ctx out)
  show ?case by simp
next
  case (3 c w path i entry rest ctx out)
  note fl = \<open>Flags c = Flags c'\<close>
  note eqs = printFile_flags [OF fl]
  show ?case
    unfolding listPath_entries.simps(2) [of c w path i entry rest ctx out]
      listPath_entries.simps(2) [of c' w path i entry rest ctx out] eqs Let_def
    using 3 unfolding eqs
    by (auto split: prod.splits option.splits sum.splits)
qed

lemma less_cmd_flags:
  assumes "Flags p = Flags p'"
  shows "less_cmd p = less_cmd p'"
  unfolding less_cmd_def assms by (rule refl)

lemma formatEntry_flags:
  assumes "Flags p = Flags p'"
  shows "formatEntry p = formatEntry p'"
  unfolding formatEntry_def formatLong_def assms by (rule refl)

lemma listSingle_entries_flags:
  assumes "Flags p = Flags p'"
  shows "listSingle_entries p w dirPath es out = listSingle_entries p' w dirPath es out"
proof (induction es arbitrary: out)
  case Nil
  show ?case by simp
next
  case (Cons e es)
  show ?case
    unfolding listSingle_entries.simps formatEntry_flags [OF assms] Cons.IH by (rule refl)
qed

lemma listDirectory_flags:
  assumes "Flags p = Flags p'"
  shows "listDirectory p = listDirectory p'"
proof (intro ext)
  fix w dirPath nd out
  have le: "listSingle_entries p = listSingle_entries p'"
    by (intro ext) (rule listSingle_entries_flags [OF assms])
  show "listDirectory p w dirPath nd out = listDirectory p' w dirPath nd out"
    unfolding listDirectory_def listRecursive_def listSingle_def sortEntries_cmd_def
      listRecursive_fn_def formatEntry_flags [OF assms] less_cmd_flags [OF assms] le assms
    by (rule refl)
qed

lemma Executor_paths_flags:
  assumes "Flags p = Flags p'"
  shows "Executor_paths p w paths out = Executor_paths p' w paths out"
proof (induction paths arbitrary: out)
  case Nil
  show ?case by simp
next
  case (Cons path rest)
  show ?case
    unfolding Executor_paths.simps formatEntry_flags [OF assms] listDirectory_flags [OF assms]
      Cons.IH by (rule refl)
qed

section \<open>Human-readable sizes: values and panics\<close>

text \<open>The number of divisions the scaling loop makes, from the magnitude of its start value.\<close>

lemma scale_loop_exp_le: "n < 1024 ^ Suc k \<Longrightarrow> snd (scale_loop n dv e) \<le> e + k"
proof (induction k arbitrary: n dv e)
  case 0
  then show ?case by (simp add: scale_loop.simps [of n])
next
  case (Suc k)
  show ?case
  proof (cases "n \<ge> 1024")
    case False
    then show ?thesis by (simp add: scale_loop.simps [of n])
  next
    case True
    from Suc.prems have "n div 1024 < 1024 ^ Suc k"
      by (simp add: div_less_iff_less_mult mult.commute)
    from Suc.IH [OF this, of "int64_wrap (dv * 1024)" "e + 1"] True show ?thesis
      by (simp add: scale_loop.simps [of n])
  qed
qed

lemma scale_loop_exp_ge: "1024 ^ k \<le> n \<Longrightarrow> e + k \<le> snd (scale_loop n dv e)"
proof (induction k arbitrary: n dv e)
  case 0
  show ?case
  proof (induction n dv e rule: scale_loop.induct)
    case (1 n dv e)
    then show ?case by (auto simp: scale_loop.simps [of n] dest: Suc_leD)
  qed
next
  case (Suc k)
  have one: "(1::int) \<le> 1024 ^ k" by simp
  from Suc.prems have p: "1024 * 1024 ^ k \<le> n" by simp
  with one have big: "n \<ge> 1024" by linarith
  have "(1024 ^ k * 1024) div 1024 \<le> n div (1024::int)"
    using p by (intro zdiv_mono1) (auto simp: mult.commute)
  then have "1024 ^ k \<le> n div 1024" by simp
  from Suc.IH [OF this, of "e + 1" "int64_wrap (dv * 1024)"] big show ?case
    by (simp add: scale_loop.simps [of n])
qed




lemma pow_1024_4: "(1024::int) ^ Suc 3 = 1099511627776" "(1024::int) ^ 4 = 1099511627776"
  by simp_all

lemma pow_2_50: "(2::int) ^ 50 = 1125899906842624"
  by simp







text \<open>
  \<^verbatim>\<open>humanReadableSize\<close> has four units: it panics exactly from \<open>2 ^ 50\<close> bytes on, and
  agrees with \<^verbatim>\<open>formatHumanReadable\<close> below.
\<close>

lemma index_units_ls:
  "index_slice [''K'', ''M'', ''G'', ''T''] e = Inl IndexOutOfRange \<longleftrightarrow> 4 \<le> e"
  by (simp add: index_slice_def not_less)

lemma index_units_agree:
  assumes "e \<le> 3"
  shows "index_slice [''K'', ''M'', ''G'', ''T''] e =
         index_slice [''K'', ''M'', ''G'', ''T'', ''P'', ''E''] e"
proof -
  from assms have "e = 0 \<or> e = 1 \<or> e = 2 \<or> e = 3" by linarith
  then show ?thesis by (elim disjE) (simp_all add: index_slice_def)
qed

lemma humanReadableSize_panics_iff:
  "humanReadableSize sz = Inl IndexOutOfRange \<longleftrightarrow> 2 ^ 50 \<le> sint sz"
proof (cases "sint sz < 1024")
  case True
  then have "\<not> (2::int) ^ 50 \<le> sint sz" unfolding pow_2_50 by linarith
  with True show ?thesis
    by (simp add: humanReadableSize_def humanReadableSize_int_def)
next
  case False
  obtain dv e where sl: "scale_loop (sint sz div 1024) 1024 0 = (dv, e)"
    by (cases "scale_loop (sint sz div 1024) 1024 0") auto
  have eq: "humanReadableSize sz = Inl IndexOutOfRange \<longleftrightarrow> 4 \<le> e"
    using False sl index_units_ls [of e]
    by (auto simp: humanReadableSize_def humanReadableSize_int_def split: sum.splits)
  show ?thesis
  proof (cases "(2::int) ^ 50 \<le> sint sz")
    case True
    then have "1024 ^ 4 \<le> sint sz div 1024"
      unfolding pow_2_50 pow_1024_4 by linarith
    from scale_loop_exp_ge [OF this, of 0 1024] sl True eq show ?thesis by simp
  next
    case big: False
    then have "sint sz div 1024 < 1024 ^ Suc 3"
      unfolding pow_2_50 pow_1024_4 by linarith
    from scale_loop_exp_le [OF this, of 1024 0] sl big eq show ?thesis by simp
  qed
qed

lemma humanReadableSize_below_PiB:
  assumes "sint sz < 2 ^ 50"
  shows "humanReadableSize sz = formatHumanReadable sz"
proof (cases "sint sz < 1024")
  case True
  then show ?thesis
    by (simp add: humanReadableSize_def humanReadableSize_int_def formatHumanReadable_def
        formatHumanReadable_int_def)
next
  case False
  obtain dv e where sl: "scale_loop (sint sz div 1024) 1024 0 = (dv, e)"
    by (cases "scale_loop (sint sz div 1024) 1024 0") auto
  from assms have "sint sz div 1024 < 1024 ^ Suc 3"
    unfolding pow_2_50 pow_1024_4 by linarith
  from scale_loop_exp_le [OF this, of 1024 0] sl have "e \<le> 3" by simp
  from index_units_agree [OF this] False sl show ?thesis
    by (simp add: humanReadableSize_def humanReadableSize_int_def formatHumanReadable_def
        formatHumanReadable_int_def)
qed

lemma humanReadable_bytes:
  assumes "sint sz < 1024"
  shows "humanReadableSize sz = Inr (show_int (sint sz) @ ''B'')"
    and "formatHumanReadable sz = Inr (show_int (sint sz) @ ''B'')"
  using assms
  by (simp_all add: humanReadableSize_def humanReadableSize_int_def formatHumanReadable_def
      formatHumanReadable_int_def)


text \<open>The renderings of \<open>0\<close>, \<open>1023\<close>, \<open>1536\<close> and \<open>1048576\<close> bytes.\<close>

lemma humanReadableSize_listed_values:
  "humanReadableSize 0 = Inr ''0B''" "humanReadableSize 1023 = Inr ''1023B''"
  "humanReadableSize 1536 = Inr ''1.5K''" "humanReadableSize 1048576 = Inr ''1.0M''"
  by (simp_all add: humanReadableSize_def humanReadableSize_int_def render_simps)

lemma formatHumanReadable_listed_values:
  "formatHumanReadable 0 = Inr ''0B''" "formatHumanReadable 1023 = Inr ''1023B''"
  "formatHumanReadable 1536 = Inr ''1.5K''" "formatHumanReadable 1048576 = Inr ''1.0M''"
  by (simp_all add: formatHumanReadable_def formatHumanReadable_int_def render_simps)

text \<open>
  C9. \<^verbatim>\<open>humanReadableSize\<close> of \<^verbatim>\<open>src/ls.go\<close> has the four units K, M, G, T. For the largest
  \<^verbatim>\<open>int64\<close> the loop counts five divisions and the index 5 is out of range.
\<close>

theorem humanReadableSize_out_of_units:
  "humanReadableSize (2 ^ 63 - 1) = Inl IndexOutOfRange"
  by (simp add: humanReadableSize_def humanReadableSize_int_def scale_loop.simps
      index_slice_def int64_wrap_def)

text \<open>
  C7. At a size of \<open>1024\<^sup>5\<close> bytes \<^verbatim>\<open>humanReadableSize\<close> of \<^verbatim>\<open>src/ls.go\<close> renders nothing: it
  panics on the unit index 4. \<^verbatim>\<open>formatHumanReadable\<close> of \<^verbatim>\<open>src/unnamed/part_000\<close> renders \<^verbatim>\<open>1.0P\<close>.
\<close>

theorem humanReadableSize_no_rendering:
  "humanReadableSize 1125899906842624 = Inl IndexOutOfRange \<and>
   formatHumanReadable 1125899906842624 = Inr ''1.0P''"
proof
  show "humanReadableSize 1125899906842624 = Inl IndexOutOfRange"
    by (simp add: humanReadableSize_def humanReadableSize_int_def scale_loop.simps
        index_slice_def int64_wrap_def)
  show "formatHumanReadable 1125899906842624 = Inr ''1.0P''"
    by (simp add: formatHumanReadable_def formatHumanReadable_int_def render_simps)
qed

section \<open>An invocation without path arguments\<close>

text \<open>
  The pattern \<^verbatim>\<open>.\<close> has no brace and no metacharacter: it expands to itself, whether the
  current directory can be read or not.
\<close>

lemma expandPatterns_dot: "expandPatterns w [''.''] = Some (Inr [''.''])"
  by (simp add: expandPatterns_def expandBraces.simps strings_IndexByte_def filepath_Glob_def
      hasMeta_def add_unseen_def split: sum.split)

lemma Join_dot_examples:
  "filepath_Join ''.'' ''a.txt'' = ''a.txt''"
  "filepath_Join ''.'' ''b.txt'' = ''b.txt''"
  by (simp_all add: filepath_Join_def filepath_Clean_def strings_Split_def clean_step_def)

lemma Base_dot_examples:
  "filepath_Base ''a.txt'' = ''a.txt''"
  "filepath_Base ''b.txt'' = ''b.txt''"
  by (simp_all add: filepath_Base_def)

text \<open>
  C10. With an empty list of positional patterns each variant behaves exactly as with the
  single pattern \<^verbatim>\<open>.\<close>: the same result, the same lines on both streams, for every world,
  every flag setting and every cancellation behaviour. That behaviour is the listing of
  the current directory. \<^verbatim>\<open>Execute\<close> of \<^verbatim>\<open>src/ls.go\<close> polls the context twice and runs
  \<^verbatim>\<open>listPath\<close> on the path \<^verbatim>\<open>.\<close> and its node, without a header; an error of \<^verbatim>\<open>listPath\<close> goes to
  the diagnostic stream. \<^verbatim>\<open>Executor\<close> of \<^verbatim>\<open>src/unnamed/part_000\<close> returns; it reads \<^verbatim>\<open>.\<close> with
  \<^verbatim>\<open>os.Stat\<close>, runs \<^verbatim>\<open>listDirectory\<close> on the path \<^verbatim>\<open>.\<close> and its node if that is a directory,
  and writes the one line of \<^verbatim>\<open>.\<close> if it is not. Where the current directory holds
  \<^verbatim>\<open>.hidden\<close>, \<^verbatim>\<open>b.txt\<close> and \<^verbatim>\<open>a.txt\<close>, both write the lines \<^verbatim>\<open>a.txt\<close> and \<^verbatim>\<open>b.txt\<close>.
\<close>

theorem empty_patterns_list_dot:
  "Execute (c\<lparr>Positional := []\<rparr>) w ctx out = Execute (c\<lparr>Positional := [''.'']\<rparr>) w ctx out \<and>
   Executor (c\<lparr>Positional := []\<rparr>) w out = Executor (c\<lparr>Positional := [''.'']\<rparr>) w out \<and>
   Execute (c\<lparr>Positional := []\<rparr>) w ctx out =
     (case CheckContextCancellation ctx of
        (Some err, ctx1) \<Rightarrow> Inr (Some err, out)
      | (None, ctx1) \<Rightarrow>
     (case CheckContextCancellation ctx1 of
        (Some err, ctx2) \<Rightarrow> Inr (Some err, out)
      | (None, ctx2) \<Rightarrow>
     (case listPath c w ''.'' (lookup w ''.'') ctx2 out of
        Inl p \<Rightarrow> Inl p
      | Inr (Some err, ctx3, out') \<Rightarrow>
          Inr (None, out'\<lparr>stderr := stderr out' @ [diagnostic ''.'' err]\<rparr>)
      | Inr (None, ctx3, out') \<Rightarrow> Inr (None, out')))) \<and>
   Executor (c\<lparr>Positional := []\<rparr>) w out = Some
     (case path_stat (lookup w ''.'') of
        Inl err \<Rightarrow> Inr (None, out\<lparr>stderr := stderr out @ [diagnostic ''.'' err]\<rparr>)
      | Inr info \<Rightarrow>
          if IsDir info then
            (case listDirectory c w ''.'' (lookup w ''.'') out of
               Inl pn \<Rightarrow> Inl pn
             | Inr (Some err, out') \<Rightarrow>
                 Inr (None, out'\<lparr>stderr := stderr out' @ [diagnostic ''.'' err]\<rparr>)
             | Inr (None, out') \<Rightarrow> Inr (None, out'))
          else
            (case formatEntry c w ''.'' info of
               Inl pn \<Rightarrow> Inl pn
             | Inr line \<Rightarrow> Inr (None, out\<lparr>stdout := stdout out @ [line]\<rparr>))) \<and>
   Execute \<lparr>Positional = [], Flags = plain_flags\<rparr> (world_of (\<lambda>p. scenario_dir)) Background
       no_output = Inr (None, \<lparr>stdout = [''a.txt'', ''b.txt''], stderr = []\<rparr>) \<and>
   Executor \<lparr>Positional = [], Flags = plain_flags\<rparr> (world_of (\<lambda>p. scenario_dir)) no_output =
     Some (Inr (None, \<lparr>stdout = [''a.txt'', ''b.txt''], stderr = []\<rparr>))"
proof (intro conjI)
  have lp: "listPath (c\<lparr>Positional := ps\<rparr>) = listPath c" for ps
    by (intro ext) (rule listPath_flags, simp)
  have ex: "Execute_paths (c\<lparr>Positional := ps\<rparr>) w n i qs cx out =
            Execute_paths c w n i qs cx out" for ps n i qs cx out
  proof (induction qs arbitrary: i cx out)
    case Nil
    show ?case by simp
  next
    case (Cons path rest)
    show ?case
      unfolding Execute_paths.simps lp Cons.IH by (rule refl)
  qed
  show "Execute (c\<lparr>Positional := []\<rparr>) w ctx out =
        Execute (c\<lparr>Positional := [''.'']\<rparr>) w ctx out"
    by (simp add: Execute_def ex split: prod.splits option.splits)
  show "Execute (c\<lparr>Positional := []\<rparr>) w ctx out =
     (case CheckContextCancellation ctx of
        (Some err, ctx1) \<Rightarrow> Inr (Some err, out)
      | (None, ctx1) \<Rightarrow>
     (case CheckContextCancellation ctx1 of
        (Some err, ctx2) \<Rightarrow> Inr (Some err, out)
      | (None, ctx2) \<Rightarrow>
     (case listPath c w ''.'' (lookup w ''.'') ctx2 out of
        Inl p \<Rightarrow> Inl p
      | Inr (Some err, ctx3, out') \<Rightarrow>
          Inr (None, out'\<lparr>stderr := stderr out' @ [diagnostic ''.'' err]\<rparr>)
      | Inr (None, ctx3, out') \<Rightarrow> Inr (None, out'))))"
    by (simp add: Execute_def ex Fprintln_def split: prod.splits option.splits sum.splits)
  have ep: "Executor_paths (c\<lparr>Positional := ps\<rparr>) = Executor_paths c" for ps
    by (intro ext) (rule Executor_paths_flags, simp)
  show "Executor (c\<lparr>Positional := []\<rparr>) w out = Executor (c\<lparr>Positional := [''.'']\<rparr>) w out"
    unfolding Executor_def ep by simp
  show "Executor (c\<lparr>Positional := []\<rparr>) w out = Some
     (case path_stat (lookup w ''.'') of
        Inl err \<Rightarrow> Inr (None, out\<lparr>stderr := stderr out @ [diagnostic ''.'' err]\<rparr>)
      | Inr info \<Rightarrow>
          if IsDir info then
            (case listDirectory c w ''.'' (lookup w ''.'') out of
               Inl pn \<Rightarrow> Inl pn
             | Inr (Some err, out') \<Rightarrow>
                 Inr (None, out'\<lparr>stderr := stderr out' @ [diagnostic ''.'' err]\<rparr>)
             | Inr (None, out') \<Rightarrow> Inr (None, out'))
          else
            (case formatEntry c w ''.'' info of
               Inl pn \<Rightarrow> Inl pn
             | Inr line \<Rightarrow> Inr (None, out\<lparr>stdout := stdout out @ [line]\<rparr>)))"
    unfolding Executor_def ep
    by (simp add: expandPatterns_dot Fprintln_def split: prod.splits option.splits sum.splits)
  show "Execute \<lparr>Positional = [], Flags = plain_flags\<rparr> (world_of (\<lambda>p. scenario_dir)) Background
       no_output = Inr (None, \<lparr>stdout = [''a.txt'', ''b.txt''], stderr = []\<rparr>)"
    using IsDir_dir_info [of 0]
    by (simp add: Execute_def listPath.simps scenario_dir_def example_defs hidden_name_def
        sortEntries_ls_def sort_Slice_def less_ls_def printFile_def Join_dot_examples
        Base_dot_examples Fprintln_def)
  show "Executor \<lparr>Positional = [], Flags = plain_flags\<rparr> (world_of (\<lambda>p. scenario_dir)) no_output =
     Some (Inr (None, \<lparr>stdout = [''a.txt'', ''b.txt''], stderr = []\<rparr>))"
    using IsDir_dir_info [of 0]
    by (simp add: Executor_def expandPatterns_dot listDirectory_def listSingle_def
        scenario_dir_def example_defs hidden_name_def sortEntries_cmd_def sort_Slice_def
        less_cmd_def formatEntry_def Join_dot_examples Base_dot_examples Fprintln_def)
qed

section \<open>Brace expansion\<close>

lemmas expand_simps = strings_IndexByte_def brace_expansions_def strings_Split_def
  strings_TrimSpace_def trim_left.simps trim_right.simps leading_space_def trailing_space_def
  space_seqs_def expandRange_def Sscanf_d_def is_digit_def digits_value_def digit_value_def
  range_up.simps range_down.simps int64_wrap_def show_int_def show_nat.simps digit_char_def
  string_of_rune_def Let_def suffix_to_prefix

text \<open>
  C5. \<^verbatim>\<open>expandBraces\<close> returns, and returns exactly \<open>[a, b, c]\<close> for \<^verbatim>\<open>{a,b,c}\<close>, \<open>[1, 2, 3]\<close> for
  \<^verbatim>\<open>{1..3}\<close> and \<open>[3, 2, 1]\<close> for \<^verbatim>\<open>{3..1}\<close>; a pattern without an opening brace is
  returned unchanged as the only element.
\<close>

theorem expandBraces_examples:
  "expandBraces ''{a,b,c}'' = Some [''a'', ''b'', ''c''] \<and>
   expandBraces ''{1..3}'' = Some [''1'', ''2'', ''3''] \<and>
   expandBraces ''{3..1}'' = Some [''3'', ''2'', ''1''] \<and>
   (\<forall>pattern. CHR ''{'' \<notin> set pattern \<longrightarrow> expandBraces pattern = Some [pattern])"
proof (intro conjI allI impI)
  show "expandBraces ''{a,b,c}'' = Some [''a'', ''b'', ''c'']"
    by (simp add: expandBraces.simps expand_simps)
  show "expandBraces ''{1..3}'' = Some [''1'', ''2'', ''3'']"
    by (simp add: expandBraces.simps expand_simps)
  show "expandBraces ''{3..1}'' = Some [''3'', ''2'', ''1'']"
    by (simp add: expandBraces.simps expand_simps)
  show "expandBraces pattern = Some [pattern]" if "CHR ''{'' \<notin> set pattern" for pattern
    using that by (simp add: expandBraces.simps strings_IndexByte_def)
qed

theorem expandBraces_examples_witness:
  "CHR ''{'' \<notin> set ''src/*.go'' \<and> expandBraces ''src/*.go'' = Some [''src/*.go'']"
  using expandBraces_examples by simp

section \<open>Cancellation\<close>

text \<open>
  C1. In \<^verbatim>\<open>src/ls.go\<close> a cancellation that \<^verbatim>\<open>listPath\<close> observes is returned to \<^verbatim>\<open>Execute\<close>,
  which treats it like any other error of the path: it writes the diagnostic line and
  goes on to the next path. Here the context is cancelled after the two polls of
  \<^verbatim>\<open>Execute\<close>; the first poll of \<^verbatim>\<open>listPath\<close> observes it. The line
  \<^verbatim>\<open>ls: d: context canceled\<close> is written and \<^verbatim>\<open>Execute\<close> returns \<^verbatim>\<open>nil\<close>.
\<close>

theorem cancel_in_listPath_is_reported:
  "Execute \<lparr>Positional = [''d''], Flags = plain_flags\<rparr>
     (world_of (\<lambda>p. dir_node p 0 [])) (CancelAfter 2 Canceled) no_output
   = Inr (None, \<lparr>stdout = [], stderr = [''ls: d: context canceled'']\<rparr>)"
  by (simp add: Execute_def listPath.simps example_defs numeral_2_eq_2 diagnostic_def Fprintln_def)

section \<open>Sorting\<close>

text \<open>
  C3. In \<^verbatim>\<open>src/ls.go\<close> the comparison by time or size discards the error of \<^verbatim>\<open>Info()\<close> and
  calls a method on the nil \<^verbatim>\<open>FileInfo\<close>: sorting by time a directory of two entries, one
  of which was removed after the directory was read, panics.
\<close>

theorem sortEntries_ls_nil_info:
  "sortEntries_ls \<lparr>Positional = [], Flags = plain_flags\<lparr>SortBy := ''time''\<rparr>\<rparr> w Background
     [vanished_node ''d'' ''a'', file_node ''b'' 1 1] = Inl NilDereference"
  by (simp add: sortEntries_ls_def sort_Slice_def less_ls_def example_defs)

lemma sort_Slice_pair:
  "sort_Slice alg lt [x, y] =
     (case lt y x of Inl p \<Rightarrow> Inl p | Inr b \<Rightarrow> Inr (if b then [y, x] else [x, y]))"
  by (simp add: sort_Slice_def split: sum.split)

text \<open>
  C4. For two entries whose metadata can be read and whose keys differ, with \<^verbatim>\<open>reverse\<close>
  unset: the closure of \<^verbatim>\<open>src/ls.go\<close> puts the earlier time, or the smaller size, first;
  the closure of \<^verbatim>\<open>src/unnamed/part_000\<close> puts the later time, or the larger size, first;
  each is the negation of the other, and the two sorters return the pair in opposite
  orders.
\<close>

theorem sort_direction_variants:
  assumes "entry_info e1 = Inr i1" and "entry_info e2 = Inr i2" and "\<not> Reverse (Flags c)"
  shows
    "(SortBy (Flags c) = ''time'' \<longrightarrow> ModTime i1 \<noteq> ModTime i2 \<longrightarrow>
        less_ls c e1 e2 = Inr (ModTime i1 < ModTime i2) \<and>
        less_cmd c e1 e2 = (ModTime i1 > ModTime i2) \<and>
        less_ls c e1 e2 = Inr (\<not> less_cmd c e1 e2) \<and>
        (\<exists>xs. sortEntries_ls c w Background [e1, e2] = Inr (xs, Background) \<and>
              sortEntries_cmd c w [e1, e2] = Inr (rev xs))) \<and>
     (SortBy (Flags c) = ''size'' \<longrightarrow> sint (Size i1) \<noteq> sint (Size i2) \<longrightarrow>
        less_ls c e1 e2 = Inr (sint (Size i1) < sint (Size i2)) \<and>
        less_cmd c e1 e2 = (sint (Size i1) > sint (Size i2)) \<and>
        less_ls c e1 e2 = Inr (\<not> less_cmd c e1 e2) \<and>
        (\<exists>xs. sortEntries_ls c w Background [e1, e2] = Inr (xs, Background) \<and>
              sortEntries_cmd c w [e1, e2] = Inr (rev xs)))"
  using assms
  by (auto simp: less_ls_def less_cmd_def sortEntries_ls_def sortEntries_cmd_def sort_Slice_pair)

theorem sort_direction_variants_witness:
  "less_ls \<lparr>Positional = [], Flags = plain_flags\<lparr>SortBy := ''time''\<rparr>\<rparr>
     (file_node ''old'' 7 100) (file_node ''new'' 7 200) = Inr True \<and>
   less_cmd \<lparr>Positional = [], Flags = plain_flags\<lparr>SortBy := ''time''\<rparr>\<rparr>
     (file_node ''old'' 7 100) (file_node ''new'' 7 200) = False"
  using sort_direction_variants [of "file_node ''old'' 7 100" "file_info 7 100"
      "file_node ''new'' 7 200" "file_info 7 200"
      "\<lparr>Positional = [], Flags = plain_flags\<lparr>SortBy := ''time''\<rparr>\<rparr>"]
  by (simp add: example_defs file_info_def)


text \<open>
  C8, as stated, fails in \<^verbatim>\<open>src/unnamed/part_000\<close>: sorting by size, with \<open>b\<close> an entry whose
  \<^verbatim>\<open>Info()\<close> fails, \<open>a\<close> (1 byte) is before \<open>b\<close> and \<open>b\<close> before \<open>c\<close> (2 bytes) by name, and \<open>a\<close>
  is not before \<open>c\<close>, because the larger size comes first. The comparison is not
  transitive, so it is no order.
\<close>

theorem less_cmd_fallback_not_transitive:
  "less_cmd \<lparr>Positional = [], Flags = plain_flags\<lparr>SortBy := ''size''\<rparr>\<rparr>
     (file_node ''a'' 1 0) (vanished_node ''d'' ''b'') \<and>
   less_cmd \<lparr>Positional = [], Flags = plain_flags\<lparr>SortBy := ''size''\<rparr>\<rparr>
     (vanished_node ''d'' ''b'') (file_node ''c'' 2 0) \<and>
   \<not> less_cmd \<lparr>Positional = [], Flags = plain_flags\<lparr>SortBy := ''size''\<rparr>\<rparr>
     (file_node ''a'' 1 0) (file_node ''c'' 2 0)"
  by (simp add: less_cmd_def example_defs file_info_def)

text \<open>
  \<^verbatim>\<open>ReverseFlag.Configure\<close> (\<^verbatim>\<open>src/unnamed/part_001\<close>, \<^verbatim>\<open>src/command_test.go\<close>): the flag value
  is stored in the flags. \<open>with_reverse\<close> is a command whose flags were so configured.
\<close>

definition Configure_Reverse :: "bool \<Rightarrow> flags \<Rightarrow> flags" where
  "Configure_Reverse f flags = flags\<lparr>Reverse := f\<rparr>"

definition with_reverse :: "bool \<Rightarrow> command \<Rightarrow> command" where
  "with_reverse f c = c\<lparr>Flags := Configure_Reverse f (Flags c)\<rparr>"

text \<open>
  A strict weak order on a set: irreflexive, transitive, and whatever lies between two
  ordered elements is ordered against one of them. Elements unordered both ways form
  classes, and the classes are totally ordered.
\<close>

definition strict_weak_order_on :: "'a set \<Rightarrow> ('a \<Rightarrow> 'a \<Rightarrow> bool) \<Rightarrow> bool" where
  "strict_weak_order_on S lt \<longleftrightarrow>
     (\<forall>x\<in>S. \<not> lt x x) \<and>
     (\<forall>x\<in>S. \<forall>y\<in>S. \<forall>z\<in>S. lt x y \<longrightarrow> lt y z \<longrightarrow> lt x z) \<and>
     (\<forall>x\<in>S. \<forall>y\<in>S. \<forall>z\<in>S. lt x z \<longrightarrow> lt x y \<or> lt y z)"

lemma less_cmd_key:
  assumes "entry_info x = Inr ix" and "entry_info y = Inr iy"
  shows "less_cmd (with_reverse False c) x y =
     (if SortBy (Flags c) = ''time'' then ModTime iy < ModTime ix
      else if SortBy (Flags c) = ''size'' then sint (Size iy) < sint (Size ix)
      else entry_name x < entry_name y)"
  using assms by (simp add: less_cmd_def with_reverse_def Configure_Reverse_def)

lemma less_ls_key:
  assumes "entry_info x = Inr ix" and "entry_info y = Inr iy"
  shows "less_ls (with_reverse False c) x y = Inr
     (if SortBy (Flags c) = ''time'' then ModTime ix < ModTime iy
      else if SortBy (Flags c) = ''size'' then sint (Size ix) < sint (Size iy)
      else entry_name x < entry_name y)"
  using assms by (simp add: less_ls_def with_reverse_def Configure_Reverse_def)

lemma less_cmd_reverse:
  "less_cmd (with_reverse True c) x y = (\<not> less_cmd (with_reverse False c) x y)"
  by (auto simp: less_cmd_def with_reverse_def Configure_Reverse_def Let_def)

lemma less_ls_reverse:
  "less_ls (with_reverse True c) x y =
     (case less_ls (with_reverse False c) x y of Inl p \<Rightarrow> Inl p | Inr lt \<Rightarrow> Inr (\<not> lt))"
  by (auto simp: less_ls_def with_reverse_def Configure_Reverse_def Let_def split: sum.split)

lemma less_cmd_strict_weak_order:
  assumes "\<forall>e\<in>S. \<exists>info. entry_info e = Inr info"
  shows "strict_weak_order_on S (less_cmd (with_reverse False c))"
  unfolding strict_weak_order_on_def
proof (intro conjI ballI impI)
  fix x assume "x \<in> S"
  with assms obtain ix where "entry_info x = Inr ix" by blast
  then show "\<not> less_cmd (with_reverse False c) x x"
    by (simp add: less_cmd_key)
next
  fix x y z assume "x \<in> S" "y \<in> S" "z \<in> S"
  with assms obtain ix iy iz where i: "entry_info x = Inr ix" "entry_info y = Inr iy" "entry_info z = Inr iz"
    by blast
  assume "less_cmd (with_reverse False c) x y" "less_cmd (with_reverse False c) y z"
  then show "less_cmd (with_reverse False c) x z"
    unfolding less_cmd_key [OF i(1,2)] less_cmd_key [OF i(2,3)] less_cmd_key [OF i(1,3)]
    by (auto split: if_splits)
next
  fix x y z assume "x \<in> S" "y \<in> S" "z \<in> S"
  with assms obtain ix iy iz where i: "entry_info x = Inr ix" "entry_info y = Inr iy" "entry_info z = Inr iz"
    by blast
  assume "less_cmd (with_reverse False c) x z"
  then show "less_cmd (with_reverse False c) x y \<or> less_cmd (with_reverse False c) y z"
    unfolding less_cmd_key [OF i(1,2)] less_cmd_key [OF i(2,3)] less_cmd_key [OF i(1,3)]
    by (auto split: if_splits)
qed

lemma less_ls_strict_weak_order:
  assumes "\<forall>e\<in>S. \<exists>info. entry_info e = Inr info"
  shows "strict_weak_order_on S (\<lambda>x y. less_ls (with_reverse False c) x y = Inr True)"
  unfolding strict_weak_order_on_def
proof (intro conjI ballI impI)
  fix x assume "x \<in> S"
  with assms obtain ix where "entry_info x = Inr ix" by blast
  then show "\<not> less_ls (with_reverse False c) x x = Inr True"
    by (simp add: less_ls_key)
next
  fix x y z assume "x \<in> S" "y \<in> S" "z \<in> S"
  with assms obtain ix iy iz where i: "entry_info x = Inr ix" "entry_info y = Inr iy" "entry_info z = Inr iz"
    by blast
  assume "less_ls (with_reverse False c) x y = Inr True" "less_ls (with_reverse False c) y z = Inr True"
  then show "less_ls (with_reverse False c) x z = Inr True"
    unfolding less_ls_key [OF i(1,2)] less_ls_key [OF i(2,3)] less_ls_key [OF i(1,3)]
    by (auto split: if_splits)
next
  fix x y z assume "x \<in> S" "y \<in> S" "z \<in> S"
  with assms obtain ix iy iz where i: "entry_info x = Inr ix" "entry_info y = Inr iy" "entry_info z = Inr iz"
    by blast
  assume "less_ls (with_reverse False c) x z = Inr True"
  then show "less_ls (with_reverse False c) x y = Inr True \<or> less_ls (with_reverse False c) y z = Inr True"
    unfolding less_ls_key [OF i(1,2)] less_ls_key [OF i(2,3)] less_ls_key [OF i(1,3)]
    by (auto split: if_splits)
qed


text \<open>
  C8, amended. On entries whose metadata can be read, with \<^verbatim>\<open>reverse\<close> unset, the comparison
  of either variant is a strict weak order, decided by the chosen key alone (time, size,
  or else name); with \<^verbatim>\<open>reverse\<close> set the comparison is the negation of the one with
  \<^verbatim>\<open>reverse\<close> unset, for all entries, so that inverting the reversed comparison once more
  sorts as without \<^verbatim>\<open>reverse\<close>.
\<close>

theorem comparison_orders_by_key:
  assumes "\<forall>e\<in>S. \<exists>info. entry_info e = Inr info"
  shows
    "strict_weak_order_on S (less_cmd (with_reverse False c)) \<and>
     strict_weak_order_on S (\<lambda>x y. less_ls (with_reverse False c) x y = Inr True) \<and>
     (\<forall>x\<in>S. \<forall>y\<in>S. \<forall>ix iy. entry_info x = Inr ix \<longrightarrow> entry_info y = Inr iy \<longrightarrow>
        less_cmd (with_reverse False c) x y =
          (if SortBy (Flags c) = ''time'' then ModTime iy < ModTime ix
           else if SortBy (Flags c) = ''size'' then sint (Size iy) < sint (Size ix)
           else entry_name x < entry_name y) \<and>
        less_ls (with_reverse False c) x y = Inr
          (if SortBy (Flags c) = ''time'' then ModTime ix < ModTime iy
           else if SortBy (Flags c) = ''size'' then sint (Size ix) < sint (Size iy)
           else entry_name x < entry_name y)) \<and>
     (\<forall>x y. less_cmd (with_reverse True c) x y = (\<not> less_cmd (with_reverse False c) x y)) \<and>
     (\<forall>x y. less_ls (with_reverse True c) x y =
        (case less_ls (with_reverse False c) x y of Inl p \<Rightarrow> Inl p | Inr lt \<Rightarrow> Inr (\<not> lt))) \<and>
     (\<forall>w es. sort_Slice (pdqsort w) (\<lambda>x y. Inr (\<not> less_cmd (with_reverse True c) x y)) es =
        sortEntries_cmd (with_reverse False c) w es) \<and>
     (\<forall>alg es. sort_Slice alg (\<lambda>x y. case less_ls (with_reverse True c) x y of
                               Inl p \<Rightarrow> Inl p | Inr lt \<Rightarrow> Inr (\<not> lt)) es =
        sort_Slice alg (less_ls (with_reverse False c)) es)"
proof (intro conjI allI ballI impI)
  show "strict_weak_order_on S (less_cmd (with_reverse False c))"
    using assms by (rule less_cmd_strict_weak_order)
  show "strict_weak_order_on S (\<lambda>x y. less_ls (with_reverse False c) x y = Inr True)"
    using assms by (rule less_ls_strict_weak_order)
  show "less_cmd (with_reverse True c) x y = (\<not> less_cmd (with_reverse False c) x y)" for x y
    by (rule less_cmd_reverse)
  show "less_ls (with_reverse True c) x y =
        (case less_ls (with_reverse False c) x y of Inl p \<Rightarrow> Inl p | Inr lt \<Rightarrow> Inr (\<not> lt))" for x y
    by (rule less_ls_reverse)
  show "sort_Slice (pdqsort w) (\<lambda>x y. Inr (\<not> less_cmd (with_reverse True c) x y)) es =
        sortEntries_cmd (with_reverse False c) w es" for w es
    by (simp add: sortEntries_cmd_def less_cmd_reverse)
  have "(\<lambda>x y. case less_ls (with_reverse True c) x y of Inl p \<Rightarrow> Inl p | Inr lt \<Rightarrow> Inr (\<not> lt)) =
        less_ls (with_reverse False c)"
    by (intro ext) (simp add: less_ls_reverse split: sum.split)
  then show "sort_Slice alg (\<lambda>x y. case less_ls (with_reverse True c) x y of
                               Inl p \<Rightarrow> Inl p | Inr lt \<Rightarrow> Inr (\<not> lt)) es =
        sort_Slice alg (less_ls (with_reverse False c)) es" for alg es
    by simp
next
  fix x y ix iy
  assume i: "entry_info x = Inr ix" "entry_info y = Inr iy"
  show "less_cmd (with_reverse False c) x y =
          (if SortBy (Flags c) = ''time'' then ModTime iy < ModTime ix
           else if SortBy (Flags c) = ''size'' then sint (Size iy) < sint (Size ix)
           else entry_name x < entry_name y)"
    by (rule less_cmd_key [OF i])
  show "less_ls (with_reverse False c) x y = Inr
          (if SortBy (Flags c) = ''time'' then ModTime ix < ModTime iy
           else if SortBy (Flags c) = ''size'' then sint (Size ix) < sint (Size iy)
           else entry_name x < entry_name y)"
    by (rule less_ls_key [OF i])
qed

theorem comparison_orders_by_key_witness:
  "list_all (\<lambda>e. \<exists>info. entry_info e = Inr info) [file_node ''a'' 1 0, file_node ''c'' 2 0] \<and>
   less_cmd (with_reverse False \<lparr>Positional = [], Flags = plain_flags\<lparr>SortBy := ''size''\<rparr>\<rparr>)
     (file_node ''c'' 2 0) (file_node ''a'' 1 0) \<and>
   less_ls (with_reverse False \<lparr>Positional = [], Flags = plain_flags\<lparr>SortBy := ''size''\<rparr>\<rparr>)
     (file_node ''a'' 1 0) (file_node ''c'' 2 0) = Inr True \<and>
   \<not> less_cmd (with_reverse True \<lparr>Positional = [], Flags = plain_flags\<lparr>SortBy := ''size''\<rparr>\<rparr>)
     (file_node ''c'' 2 0) (file_node ''a'' 1 0)"
proof -
  let ?S = "{file_node ''a'' 1 0, file_node ''c'' 2 0}"
  let ?c = "\<lparr>Positional = [], Flags = plain_flags\<lparr>SortBy := ''size''\<rparr>\<rparr>"
  have h: "\<forall>e\<in>?S. \<exists>info. entry_info e = Inr info"
    by (simp add: file_node_def)
  have i: "entry_info (file_node ''a'' 1 0) = Inr (file_info 1 0)"
    "entry_info (file_node ''c'' 2 0) = Inr (file_info 2 0)"
    by (simp_all add: file_node_def)
  from comparison_orders_by_key [OF h, of ?c]
  have key: "\<forall>x\<in>?S. \<forall>y\<in>?S. \<forall>ix iy. entry_info x = Inr ix \<longrightarrow> entry_info y = Inr iy \<longrightarrow>
        less_cmd (with_reverse False ?c) x y =
          (if SortBy (Flags ?c) = ''time'' then ModTime iy < ModTime ix
           else if SortBy (Flags ?c) = ''size'' then sint (Size iy) < sint (Size ix)
           else entry_name x < entry_name y) \<and>
        less_ls (with_reverse False ?c) x y = Inr
          (if SortBy (Flags ?c) = ''time'' then ModTime ix < ModTime iy
           else if SortBy (Flags ?c) = ''size'' then sint (Size ix) < sint (Size iy)
           else entry_name x < entry_name y)"
    and rev: "\<forall>x y. less_cmd (with_reverse True ?c) x y = (\<not> less_cmd (with_reverse False ?c) x y)"
    by blast+
  from key i have "less_cmd (with_reverse False ?c) (file_node ''c'' 2 0) (file_node ''a'' 1 0)"
    and "less_ls (with_reverse False ?c) (file_node ''a'' 1 0) (file_node ''c'' 2 0) = Inr True"
    by (simp_all add: plain_flags_def file_info_def)
  with rev h show ?thesis by simp
qed

section \<open>Short listings\<close>

text \<open>
  The names \<^verbatim>\<open>os.ReadDir\<close> returns are single path elements: not empty, without a slash,
  and neither \<^verbatim>\<open>.\<close> nor \<^verbatim>\<open>..\<close>. For such a name the base name of the joined path is the
  name again.
\<close>

definition entry_name_ok :: "string \<Rightarrow> bool" where
  "entry_name_ok name \<longleftrightarrow>
     name \<noteq> [] \<and> CHR ''/'' \<notin> set name \<and> name \<noteq> ''.'' \<and> name \<noteq> ''..''"

lemma split_from_no_sep: "c \<notin> set t \<Longrightarrow> split_from [c] acc t = [rev acc @ t]"
  by (induction t arbitrary: acc) auto

lemma split_from_at_sep:
  "split_from [c] acc (s @ c # t) = split_from [c] acc s @ split_from [c] [] t"
  by (induction s arbitrary: acc) auto

lemma strings_Join_snoc:
  "strings_Join (xs @ [y]) sep = (if xs = [] then y else strings_Join xs sep @ sep @ y)"
  by (induction xs sep rule: strings_Join.induct) auto

lemma Clean_child:
  assumes "entry_name_ok name"
  shows "\<exists>pre. filepath_Clean (dir @ ''/'' @ name) = pre @ name \<and> (pre = [] \<or> last pre = CHR ''/'')"
proof -
  define p where "p = dir @ ''/'' @ name"
  define rooted where "rooted = prefix ''/'' p"
  define keep where "keep = (\<lambda>c :: string. c \<noteq> [] \<and> c \<noteq> ''.'')"
  define st where "st = foldl (clean_step rooted) [] (filter keep (strings_Split dir ''/''))"
  define root where "root = (if rooted then ''/'' else [])"
  from assms have n: "name \<noteq> []" "CHR ''/'' \<notin> set name" "name \<noteq> ''.''" "name \<noteq> ''..''"
    by (auto simp: entry_name_ok_def)
  have pne: "p \<noteq> []" by (simp add: p_def)
  have "strings_Split p ''/'' = strings_Split dir ''/'' @ [name]"
    using split_from_at_sep [of "CHR ''/''" "[]" dir name] split_from_no_sep [OF n(2), of "[]"]
    by (simp add: strings_Split_def p_def)
  then have "filter keep (strings_Split p ''/'') = filter keep (strings_Split dir ''/'') @ [name]"
    using n by (simp add: keep_def)
  then have "foldl (clean_step rooted) [] (filter keep (strings_Split p ''/'')) = name # st"
    unfolding st_def using n(4) by (simp add: clean_step_def)
  then have body: "strings_Join (rev (foldl (clean_step rooted) [] (filter keep (strings_Split p ''/''))))
           ''/'' = (if st = [] then name else strings_Join (rev st) ''/'' @ ''/'' @ name)"
    by (simp add: strings_Join_snoc)
  have clean: "filepath_Clean p =
      (let body = strings_Join (rev (foldl (clean_step rooted) [] (filter keep (strings_Split p ''/'')))) ''/''
       in if rooted then CHR ''/'' # body else if body = [] then ''.'' else body)"
    using pne unfolding filepath_Clean_def rooted_def keep_def Let_def by simp
  have "filepath_Clean p = (root @ (if st = [] then [] else strings_Join (rev st) ''/'' @ ''/'')) @ name"
    unfolding clean body Let_def root_def using n(1) by simp
  moreover have "root @ (if st = [] then [] else strings_Join (rev st) ''/'' @ ''/'') = [] \<or>
      last (root @ (if st = [] then [] else strings_Join (rev st) ''/'' @ ''/'')) = CHR ''/''"
    by (simp add: root_def)
  ultimately show ?thesis
    unfolding p_def by blast
qed

lemma Clean_name:
  assumes "entry_name_ok name"
  shows "filepath_Clean name = name"
proof -
  from assms have n: "name \<noteq> []" "CHR ''/'' \<notin> set name" "name \<noteq> ''.''" "name \<noteq> ''..''"
    by (auto simp: entry_name_ok_def)
  have "strings_Split name ''/'' = [name]"
    using split_from_no_sep [OF n(2), of "[]"] by (simp add: strings_Split_def)
  moreover from n(1,2) have "\<not> prefix ''/'' name"
    by (cases name) auto
  ultimately show ?thesis
    using n by (simp add: filepath_Clean_def clean_step_def)
qed

lemma Base_of_child:
  assumes "entry_name_ok name" and "pre = [] \<or> last pre = CHR ''/''"
  shows "filepath_Base (pre @ name) = name"
proof -
  from assms(1) have n: "name \<noteq> []" "CHR ''/'' \<notin> set name"
    by (auto simp: entry_name_ok_def)
  then have hd: "hd (rev name) \<noteq> CHR ''/''"
    by (metis hd_rev last_in_set)
  from n have rn: "rev name \<noteq> []" by simp
  have dw: "dropWhile (\<lambda>c. c = CHR ''/'') (rev name @ rev pre) = rev name @ rev pre"
    using hd rn by (cases "rev name") auto
  have tw: "takeWhile (\<lambda>c. c \<noteq> CHR ''/'') (rev name @ rev pre) = rev name"
  proof -
    have "\<forall>c\<in>set (rev name). c \<noteq> CHR ''/''" using n(2) by auto
    then have "takeWhile (\<lambda>c. c \<noteq> CHR ''/'') (rev name @ rev pre) =
               rev name @ takeWhile (\<lambda>c. c \<noteq> CHR ''/'') (rev pre)"
      by (intro takeWhile_append2) auto
    moreover have "takeWhile (\<lambda>c. c \<noteq> CHR ''/'') (rev pre) = []"
      using assms(2) by (cases pre rule: rev_cases) auto
    ultimately show ?thesis by simp
  qed
  show ?thesis
    using n dw tw by (simp add: filepath_Base_def Let_def)
qed

lemma Base_Join:
  assumes "entry_name_ok name"
  shows "filepath_Base (filepath_Join dir name) = name"
proof (cases "dir = []")
  case True
  with assms show ?thesis
    using Base_of_child [OF assms, of "[]"]
    by (simp add: filepath_Join_def Clean_name entry_name_ok_def)
next
  case False
  from Clean_child [OF assms, of dir] obtain pre where
    "filepath_Clean (dir @ ''/'' @ name) = pre @ name" "pre = [] \<or> last pre = CHR ''/''"
    by blast
  with False Base_of_child [OF assms, of pre] show ?thesis
    by (simp add: filepath_Join_def)
qed


lemma insert_left_returns:
  assumes "\<forall>y\<in>set ys. \<exists>b. lt x y = Inr b"
  shows "\<exists>zs. insert_left lt x ys = Inr zs"
  using assms
proof (induction ys)
  case Nil
  then show ?case by simp
next
  case (Cons y ys)
  then obtain b where b: "lt x y = Inr b" by auto
  from Cons obtain zs where "insert_left lt x ys = Inr zs" by auto
  with b show ?case by (cases b) auto
qed

lemma insertion_loop_returns:
  assumes "\<forall>x\<in>set pre \<union> set xs. \<forall>y\<in>set pre \<union> set xs. \<exists>b. lt x y = Inr b"
  shows "\<exists>ys. insertion_loop lt pre xs = Inr ys"
  using assms
proof (induction xs arbitrary: pre)
  case Nil
  then show ?case by simp
next
  case (Cons x xs)
  then have "\<forall>y\<in>set pre. \<exists>b. lt x y = Inr b" by simp
  from insert_left_returns [of pre lt x, OF this] obtain pre2
    where p2: "insert_left lt x pre = Inr pre2"
    by blast
  from insert_left_mset [OF p2] have "set pre2 = insert x (set pre)"
    by (metis set_mset_add_mset_insert set_mset_mset)
  with Cons.prems have "\<forall>a\<in>set pre2 \<union> set xs. \<forall>b\<in>set pre2 \<union> set xs. \<exists>r. lt a b = Inr r"
    by auto
  from Cons.IH [OF this] p2 show ?case by simp
qed

lemma run_plan_returns:
  assumes "within (length xs) p" and "\<forall>x\<in>set xs. \<forall>y\<in>set xs. \<exists>b. lt x y = Inr b"
  shows "\<exists>ys. run_plan lt p xs = Inr ys"
  using assms
proof (induction p arbitrary: xs)
  case Stop
  show ?case by simp
next
  case (Swap i j p)
  let ?ys = "xs[i := xs ! j, j := xs ! i]"
  from Swap.prems(1) have b: "i < length xs" "j < length xs" and w: "within (length ?ys) p"
    by simp_all
  from mset_swap [OF b(2,1)] have "set ?ys = set xs"
    by (rule mset_eq_setD)
  with Swap.prems(2) have "\<forall>x\<in>set ?ys. \<forall>y\<in>set ?ys. \<exists>b. lt x y = Inr b"
    by simp
  from Swap.IH [OF w this] b show ?case by simp
next
  case (Less i j k)
  from Less.prems(1) have b: "i < length xs" "j < length xs"
    and w: "within (length xs) (k r)" for r
    by (cases r; simp)+
  from b Less.prems(2) obtain r where r: "lt (xs ! i) (xs ! j) = Inr r"
    using nth_mem by blast
  from Less.IH [OF _ w Less.prems(2), of r] b r
  show ?case by simp
qed

lemma plan_for_within: "within n (plan_for alg n)"
  using plan_for [of alg] by simp

lemma sort_Slice_returns:
  assumes "\<forall>x\<in>set xs. \<forall>y\<in>set xs. \<exists>b. lt x y = Inr b"
  shows "\<exists>ys. sort_Slice alg lt xs = Inr ys \<and> mset ys = mset xs"
proof -
  have "\<exists>ys. sort_Slice alg lt xs = Inr ys"
  proof (cases "length xs \<le> 12")
    case True
    with insertion_loop_returns [of "[]" xs lt] assms show ?thesis
      by (auto simp: sort_Slice_def)
  next
    case False
    with run_plan_returns [OF plan_for_within assms, of alg] show ?thesis
      by (simp add: sort_Slice_def)
  qed
  then obtain ys where "sort_Slice alg lt xs = Inr ys" by blast
  with sort_Slice_mset [OF this] show ?thesis by simp
qed

lemma sortEntries_cmd_returns: "\<exists>ys. sortEntries_cmd p w es = Inr ys \<and> mset ys = mset es"
  unfolding sortEntries_cmd_def by (rule sort_Slice_returns) simp


text \<open>
  An entry is readable when its \<^verbatim>\<open>Info()\<close> succeeds. \<open>entry_diagnostics\<close> are the lines
  \<^verbatim>\<open>ls: <joined path>: <error>\<close> of the entries that are not, in the order of the entries.
\<close>

definition readable :: "node \<Rightarrow> bool" where
  "readable e = (case entry_info e of Inl err \<Rightarrow> False | Inr info \<Rightarrow> True)"

fun entry_diagnostics :: "string \<Rightarrow> node list \<Rightarrow> string list" where
  "entry_diagnostics path [] = []"
| "entry_diagnostics path (e # es) =
     (case entry_info e of
        Inl err \<Rightarrow> diagnostic (filepath_Join path (entry_name e)) err # entry_diagnostics path es
      | Inr info \<Rightarrow> entry_diagnostics path es)"

text \<open>
  Cancellation, as a listing meets it: \<open>polls_pass ctx k\<close> says that the next \<open>k\<close> polls of
  the context find it live, \<open>after_polls ctx k\<close> is the context after them, and
  \<open>poll_count period i n\<close> is the number of polls a loop makes over \<open>n\<close> entries, the first of
  index \<open>i\<close>, when it polls at every index that is a multiple of \<open>period\<close>.
\<close>

fun polls_pass :: "ctx \<Rightarrow> nat \<Rightarrow> bool" where
  "polls_pass Background k = True"
| "polls_pass (CancelAfter n e) k = (k \<le> n)"

fun after_polls :: "ctx \<Rightarrow> nat \<Rightarrow> ctx" where
  "after_polls Background k = Background"
| "after_polls (CancelAfter n e) k = CancelAfter (n - k) e"

fun poll_count :: "nat \<Rightarrow> nat \<Rightarrow> nat \<Rightarrow> nat" where
  "poll_count period i 0 = 0"
| "poll_count period i (Suc n) =
     (if i mod period = 0 then 1 else 0) + poll_count period (Suc i) n"

lemma less_ls_returns:
  assumes "(SortBy (Flags c) \<noteq> ''time'' \<and> SortBy (Flags c) \<noteq> ''size'') \<or> (readable x \<and> readable y)"
  shows "\<exists>b. less_ls c x y = Inr b"
  using assms by (auto simp: less_ls_def readable_def split: sum.splits)

lemma poll_passes:
  assumes "polls_pass ctx (Suc k)"
  shows "CheckContextCancellation ctx = (None, after_polls ctx 1)"
    and "polls_pass (after_polls ctx 1) k"
proof -
  show "CheckContextCancellation ctx = (None, after_polls ctx 1)"
  proof (cases ctx)
    case Background
    then show ?thesis by simp
  next
    case (CancelAfter n e)
    with assms obtain m where "n = Suc m" by (cases n) auto
    with CancelAfter show ?thesis by simp
  qed
  show "polls_pass (after_polls ctx 1) k"
    using assms by (cases ctx) auto
qed

lemma polls_pass_add:
  "polls_pass ctx (a + b) \<longleftrightarrow> polls_pass ctx a \<and> polls_pass (after_polls ctx a) b"
  by (cases ctx) auto

lemma after_polls_add: "after_polls (after_polls ctx a) b = after_polls ctx (a + b)"
  by (cases ctx) auto

lemma after_polls_0 [simp]: "after_polls ctx 0 = ctx"
  by (cases ctx) auto

lemma polls_pass_0 [simp]: "polls_pass ctx 0"
  by (cases ctx) auto

lemma sortEntries_ls_returns:
  assumes "(SortBy (Flags c) \<noteq> ''time'' \<and> SortBy (Flags c) \<noteq> ''size'') \<or> (\<forall>e\<in>set es. readable e)"
    and "polls_pass ctx (Suc k)"
  shows "\<exists>ys. sortEntries_ls c w ctx es = Inr (ys, after_polls ctx 1) \<and> mset ys = mset es"
proof -
  have "\<forall>x\<in>set es. \<forall>y\<in>set es. \<exists>b. less_ls c x y = Inr b"
    using assms(1) less_ls_returns [of c] by blast
  from sort_Slice_returns [of es "less_ls c" "pdqsort w", OF this] obtain ys where
    "sort_Slice (pdqsort w) (less_ls c) es = Inr ys" "mset ys = mset es"
    by blast
  with poll_passes(1) [OF assms(2)] show ?thesis
    by (simp add: sortEntries_ls_def)
qed

lemma filter_entries_polls:
  assumes "polls_pass ctx (poll_count 1000 i (length es))"
  shows "filter_entries c i es items ctx =
     (Inr (items @ filter (\<lambda>e. AllFiles (Flags c) \<or> \<not> hidden_name (entry_name e)) es),
      after_polls ctx (poll_count 1000 i (length es)))"
  using assms
proof (induction es arbitrary: i items ctx)
  case Nil
  show ?case by simp
next
  case (Cons e es)
  show ?case
  proof (cases "i mod 1000 = 0")
    case True
    with Cons.prems have pp: "polls_pass ctx (Suc (poll_count 1000 (Suc i) (length es)))"
      by simp
    from poll_passes [OF pp] Cons.IH [of "after_polls ctx 1" "Suc i"] True show ?thesis
      by (simp add: after_polls_add)
  next
    case False
    with Cons.prems Cons.IH [of ctx "Suc i"] show ?thesis
      by simp
  qed
qed


lemma listPath_entries_short:
  assumes "\<not> LongFormat (Flags c)" and "\<not> Recursive (Flags c)"
    and "\<forall>e\<in>set es. entry_name_ok (entry_name e)"
    and "polls_pass ctx (poll_count 100 i (length es))"
  shows "listPath_entries c w path i es ctx out =
           Inr (None, after_polls ctx (poll_count 100 i (length es)),
                out\<lparr>stdout := stdout out @ map entry_name (filter readable es),
                    stderr := stderr out @ entry_diagnostics path es\<rparr>)"
  using assms(3,4)
proof (induction es arbitrary: i ctx out)
  case Nil
  show ?case by simp
next
  case (Cons e es)
  define k where "k = poll_count 100 (Suc i) (length es)"
  define ctx1 where "ctx1 = (if i mod 100 = 0 then after_polls ctx 1 else ctx)"
  have chk: "(if i mod 100 = 0 then CheckContextCancellation ctx else (None, ctx)) = (None, ctx1)"
    and pp: "polls_pass ctx1 k"
    and aft: "after_polls ctx1 k = after_polls ctx (poll_count 100 i (length (e # es)))"
  proof -
    show "(if i mod 100 = 0 then CheckContextCancellation ctx else (None, ctx)) = (None, ctx1)"
    proof (cases "i mod 100 = 0")
      case True
      with Cons.prems(2) have "polls_pass ctx (Suc k)" by (simp add: k_def)
      from poll_passes(1) [OF this] True show ?thesis by (simp add: ctx1_def)
    next
      case False
      then show ?thesis by (simp add: ctx1_def)
    qed
    show "polls_pass ctx1 k"
    proof (cases "i mod 100 = 0")
      case True
      with Cons.prems(2) have "polls_pass ctx (Suc k)" by (simp add: k_def)
      from poll_passes(2) [OF this] True show ?thesis by (simp add: ctx1_def)
    next
      case False
      with Cons.prems(2) show ?thesis by (simp add: ctx1_def k_def)
    qed
    show "after_polls ctx1 k = after_polls ctx (poll_count 100 i (length (e # es)))"
      by (simp add: ctx1_def k_def after_polls_add)
  qed
  from Cons.prems(1) have ok: "entry_name_ok (entry_name e)"
    and oks: "\<forall>e\<in>set es. entry_name_ok (entry_name e)"
    by simp_all
  note ih = Cons.IH [OF oks, of ctx1 "Suc i", folded k_def, OF pp]
  show ?case
  proof (cases "entry_info e")
    case (Inl err)
    have "listPath_entries c w path i (e # es) ctx out =
          listPath_entries c w path (Suc i) es ctx1
            (out\<lparr>stderr := stderr out @ [diagnostic (filepath_Join path (entry_name e)) err]\<rparr>)"
      using chk Inl by (simp add: Let_def Fprintln_def)
    also have "\<dots> = Inr (None, after_polls ctx1 k,
                out\<lparr>stdout := stdout out @ map entry_name (filter readable (e # es)),
                    stderr := stderr out @ entry_diagnostics path (e # es)\<rparr>)"
      unfolding ih using Inl by (simp add: readable_def)
    finally show ?thesis unfolding aft .
  next
    case (Inr info)
    have pf: "printFile c w out (filepath_Join path (entry_name e)) info =
          Inr (out\<lparr>stdout := stdout out @ [entry_name e]\<rparr>)"
      using assms(1) by (simp add: printFile_def Base_Join [OF ok] Fprintln_def)
    have "listPath_entries c w path i (e # es) ctx out =
          listPath_entries c w path (Suc i) es ctx1 (out\<lparr>stdout := stdout out @ [entry_name e]\<rparr>)"
      using chk assms(2) Inr pf by (simp add: Let_def)
    also have "\<dots> = Inr (None, after_polls ctx1 k,
                out\<lparr>stdout := stdout out @ map entry_name (filter readable (e # es)),
                    stderr := stderr out @ entry_diagnostics path (e # es)\<rparr>)"
      unfolding ih using Inr by (simp add: readable_def)
    finally show ?thesis unfolding aft .
  qed
qed

lemma listSingle_entries_short:
  assumes "\<not> LongFormat (Flags p)"
    and "\<forall>e\<in>set es. entry_name_ok (entry_name e)"
  shows "listSingle_entries p w dirPath es out =
           Inr (out\<lparr>stdout := stdout out @ map entry_name (filter readable es),
                    stderr := stderr out @ entry_diagnostics dirPath es\<rparr>)"
  using assms(2)
proof (induction es arbitrary: out)
  case Nil
  show ?case by simp
next
  case (Cons e es)
  then have ok: "entry_name_ok (entry_name e)"
    and oks: "\<forall>e\<in>set es. entry_name_ok (entry_name e)"
    by simp_all
  note ih = Cons.IH [OF oks]
  show ?case
  proof (cases "entry_info e")
    case (Inl err)
    then show ?thesis
      by (simp add: Let_def Fprintln_def ih readable_def)
  next
    case (Inr info)
    with assms(1) show ?thesis
      by (simp add: Let_def formatEntry_def Base_Join [OF ok] Fprintln_def ih readable_def)
  qed
qed

lemma set_entry_diagnostics:
  "set (entry_diagnostics path es) =
     {diagnostic (filepath_Join path (entry_name e)) err |e err. e \<in> set es \<and> entry_info e = Inl err}"
proof (induction es)
  case Nil
  show ?case by simp
next
  case (Cons e es)
  show ?case
  proof (cases "entry_info e")
    case (Inl err)
    then show ?thesis using Cons by auto
  next
    case (Inr info)
    then show ?thesis using Cons by auto
  qed
qed

lemma entry_diagnostics_mset:
  "mset xs = mset ys \<Longrightarrow> set (entry_diagnostics path xs) = set (entry_diagnostics path ys)"
  unfolding set_entry_diagnostics by (auto dest: mset_eq_setD)


lemma poll_count_small:
  "n \<le> period \<Longrightarrow> 0 < n \<Longrightarrow> poll_count period 0 n = 1"
  "i + n \<le> period \<Longrightarrow> 0 < i \<Longrightarrow> poll_count period i n = 0"
proof -
  show z: "i + n \<le> period \<Longrightarrow> 0 < i \<Longrightarrow> poll_count period i n = 0" for i n
    by (induction n arbitrary: i) auto
  show "n \<le> period \<Longrightarrow> 0 < n \<Longrightarrow> poll_count period 0 n = 1"
    using z [of 1 "n - 1"] by (cases n) auto
qed

text \<open>
  C6, amended. A directory that is read without error and whose entries are named as
  \<^verbatim>\<open>os.ReadDir\<close> names them is listed in short form without recursion. Then \<^verbatim>\<open>listDirectory\<close> of \<^verbatim>\<open>src/unnamed/part_000\<close> returns
  without error; the set of the lines it writes to the output is the set of the names of
  the entries that are readable, without the names that begin with a dot unless
  \<^verbatim>\<open>allFiles\<close> is set, and the set of the lines it writes to the diagnostic stream is the set
  of the diagnostics of the other entries that are listed. The same holds of \<^verbatim>\<open>listPath\<close> of
  \<^verbatim>\<open>src/ls.go\<close> when every poll of the context passes (two polls, the polls of the filter
  loop, two polls, the polls of the output loop) and the sort is by name or every listed
  entry is readable.
\<close>

theorem short_listing_names:
  assumes names: "\<forall>e\<in>set (dir_entries nd). entry_name_ok (entry_name e)"
    and dir: "path_stat nd = Inr info" "IsDir info" "dir_error nd = None"
    and flags: "\<not> LongFormat (Flags c)" "\<not> Recursive (Flags c)"
  shows
    "(\<exists>lines errs.
        listDirectory c w path nd out =
          Inr (None, out\<lparr>stdout := stdout out @ lines, stderr := stderr out @ errs\<rparr>) \<and>
        set lines = {entry_name e |e. e \<in> set (dir_entries nd) \<and>
                       (AllFiles (Flags c) \<or> \<not> hidden_name (entry_name e)) \<and> readable e} \<and>
        set errs = {diagnostic (filepath_Join path (entry_name e)) err |e err.
                       e \<in> set (dir_entries nd) \<and>
                       (AllFiles (Flags c) \<or> \<not> hidden_name (entry_name e)) \<and>
                       entry_info e = Inl err}) \<and>
     (polls_pass ctx
        (2 + poll_count 1000 0 (length (dir_entries nd)) + 2 +
         poll_count 100 0 (length (filter
            (\<lambda>e. AllFiles (Flags c) \<or> \<not> hidden_name (entry_name e)) (dir_entries nd)))) \<longrightarrow>
      (SortBy (Flags c) \<noteq> ''time'' \<and> SortBy (Flags c) \<noteq> ''size'') \<or>
      (\<forall>e\<in>set (dir_entries nd).
          AllFiles (Flags c) \<or> \<not> hidden_name (entry_name e) \<longrightarrow> readable e) \<longrightarrow>
      (\<exists>lines errs ctx'.
        listPath c w path nd ctx out =
          Inr (None, ctx', out\<lparr>stdout := stdout out @ lines, stderr := stderr out @ errs\<rparr>) \<and>
        set lines = {entry_name e |e. e \<in> set (dir_entries nd) \<and>
                       (AllFiles (Flags c) \<or> \<not> hidden_name (entry_name e)) \<and> readable e} \<and>
        set errs = {diagnostic (filepath_Join path (entry_name e)) err |e err.
                       e \<in> set (dir_entries nd) \<and>
                       (AllFiles (Flags c) \<or> \<not> hidden_name (entry_name e)) \<and>
                       entry_info e = Inl err}))"
proof (intro conjI impI)
  define shown where
    "shown = filter (\<lambda>e. AllFiles (Flags c) \<or> \<not> hidden_name (entry_name e)) (dir_entries nd)"
  define Names where "Names = {entry_name e |e. e \<in> set (dir_entries nd) \<and>
                       (AllFiles (Flags c) \<or> \<not> hidden_name (entry_name e)) \<and> readable e}"
  define Diags where "Diags = {diagnostic (filepath_Join path (entry_name e)) err |e err.
                       e \<in> set (dir_entries nd) \<and>
                       (AllFiles (Flags c) \<or> \<not> hidden_name (entry_name e)) \<and>
                       entry_info e = Inl err}"
  have sets: "set (map entry_name (filter readable ys)) = Names \<and>
              set (entry_diagnostics path ys) = Diags \<and>
              (\<forall>e\<in>set ys. entry_name_ok (entry_name e))"
    if "mset ys = mset shown" for ys
  proof -
    from that have eq: "set ys = set shown" by (rule mset_eq_setD)
    have "set (map entry_name (filter readable ys)) = Names"
      unfolding Names_def using eq by (auto simp: shown_def)
    moreover have "set (entry_diagnostics path ys) = Diags"
      unfolding Diags_def set_entry_diagnostics using eq by (auto simp: shown_def)
    moreover have "\<forall>e\<in>set ys. entry_name_ok (entry_name e)"
      using eq names by (auto simp: shown_def)
    ultimately show ?thesis by blast
  qed
  {
    from sortEntries_cmd_returns [of c w shown] obtain zs where
      zs: "sortEntries_cmd c w shown = Inr zs" "mset zs = mset shown"
      by blast
    note z = sets [OF zs(2)]
    have "filter (\<lambda>entry. \<not> (\<not> AllFiles (Flags c) \<and> hidden_name (entry_name entry)))
            (dir_entries nd) = shown"
      by (simp add: shown_def)
    then have "listDirectory c w path nd out =
         Inr (None, out\<lparr>stdout := stdout out @ map entry_name (filter readable zs),
                         stderr := stderr out @ entry_diagnostics path zs\<rparr>)"
      using dir(3) flags(2) zs(1) listSingle_entries_short [of c zs w path out] flags(1) z
      by (simp add: listDirectory_def listSingle_def)
    with z show "\<exists>lines errs.
        listDirectory c w path nd out =
          Inr (None, out\<lparr>stdout := stdout out @ lines, stderr := stderr out @ errs\<rparr>) \<and>
        set lines = {entry_name e |e. e \<in> set (dir_entries nd) \<and>
                       (AllFiles (Flags c) \<or> \<not> hidden_name (entry_name e)) \<and> readable e} \<and>
        set errs = {diagnostic (filepath_Join path (entry_name e)) err |e err.
                       e \<in> set (dir_entries nd) \<and>
                       (AllFiles (Flags c) \<or> \<not> hidden_name (entry_name e)) \<and>
                       entry_info e = Inl err}"
      unfolding Names_def [symmetric] Diags_def [symmetric] by blast
  }
  {
    assume polls: "polls_pass ctx
        (2 + poll_count 1000 0 (length (dir_entries nd)) + 2 +
         poll_count 100 0 (length (filter
            (\<lambda>e. AllFiles (Flags c) \<or> \<not> hidden_name (entry_name e)) (dir_entries nd))))"
    assume key: "(SortBy (Flags c) \<noteq> ''time'' \<and> SortBy (Flags c) \<noteq> ''size'') \<or>
      (\<forall>e\<in>set (dir_entries nd).
          AllFiles (Flags c) \<or> \<not> hidden_name (entry_name e) \<longrightarrow> readable e)"
    define a where "a = poll_count 1000 0 (length (dir_entries nd))"
    define b where "b = poll_count 100 0 (length shown)"
    from polls have pp: "polls_pass ctx (Suc (Suc (a + Suc (Suc b))))"
      by (simp add: a_def b_def shown_def)
    define ctx1 where "ctx1 = after_polls ctx 1"
    define ctx2 where "ctx2 = after_polls ctx1 1"
    define ctx3 where "ctx3 = after_polls ctx2 a"
    define ctx4 where "ctx4 = after_polls ctx3 1"
    define ctx5 where "ctx5 = after_polls ctx4 1"
    from poll_passes [OF pp] have c1: "CheckContextCancellation ctx = (None, ctx1)"
      and p1: "polls_pass ctx1 (Suc (a + Suc (Suc b)))"
      by (simp_all add: ctx1_def)
    from poll_passes [OF p1] have c2: "CheckContextCancellation ctx1 = (None, ctx2)"
      and p2: "polls_pass ctx2 (a + Suc (Suc b))"
      by (simp_all add: ctx2_def)
    from p2 polls_pass_add [of ctx2 a "Suc (Suc b)"]
    have p2a: "polls_pass ctx2 a" and p3: "polls_pass ctx3 (Suc (Suc b))"
      unfolding ctx3_def by blast+
    from filter_entries_polls [of ctx2 0 "dir_entries nd" c "[]"] p2a
    have fe: "filter_entries c 0 (dir_entries nd) [] ctx2 = (Inr shown, ctx3)"
      by (simp add: a_def shown_def ctx3_def)
    from key have key': "(SortBy (Flags c) \<noteq> ''time'' \<and> SortBy (Flags c) \<noteq> ''size'') \<or>
        (\<forall>e\<in>set shown. readable e)"
      by (auto simp: shown_def)
    from sortEntries_ls_returns [OF key' p3, of w] obtain ys where
      ys: "sortEntries_ls c w ctx3 shown = Inr (ys, ctx4)" "mset ys = mset shown"
      by (auto simp: ctx4_def)
    from poll_passes [OF p3] have p4: "polls_pass ctx4 (Suc b)"
      by (simp add: ctx4_def)
    from poll_passes [OF p4] have c5: "CheckContextCancellation ctx4 = (None, ctx5)"
      and p5: "polls_pass ctx5 b"
      by (simp_all add: ctx5_def)
    note y = sets [OF ys(2)]
    from ys(2) have "length ys = length shown"
      by (rule mset_eq_length)
    with p5 have p5': "polls_pass ctx5 (poll_count 100 0 (length ys))"
      by (simp add: b_def)
    from listPath_entries_short [OF flags _ p5', of w path out] y
    have le: "listPath_entries c w path 0 ys ctx5 out =
           Inr (None, after_polls ctx5 (poll_count 100 0 (length ys)),
                out\<lparr>stdout := stdout out @ map entry_name (filter readable ys),
                    stderr := stderr out @ entry_diagnostics path ys\<rparr>)"
      by blast
    have "listPath c w path nd ctx out =
           Inr (None, after_polls ctx5 (poll_count 100 0 (length ys)),
                out\<lparr>stdout := stdout out @ map entry_name (filter readable ys),
                    stderr := stderr out @ entry_diagnostics path ys\<rparr>)"
      using c1 dir c2 fe ys(1) c5 le by (simp add: listPath.simps)
    with y show "\<exists>lines errs ctx'.
        listPath c w path nd ctx out =
          Inr (None, ctx', out\<lparr>stdout := stdout out @ lines, stderr := stderr out @ errs\<rparr>) \<and>
        set lines = {entry_name e |e. e \<in> set (dir_entries nd) \<and>
                       (AllFiles (Flags c) \<or> \<not> hidden_name (entry_name e)) \<and> readable e} \<and>
        set errs = {diagnostic (filepath_Join path (entry_name e)) err |e err.
                       e \<in> set (dir_entries nd) \<and>
                       (AllFiles (Flags c) \<or> \<not> hidden_name (entry_name e)) \<and>
                       entry_info e = Inl err}"
      unfolding Names_def [symmetric] Diags_def [symmetric] by blast
  }
qed

theorem short_listing_names_witness:
  "list_all (\<lambda>e. entry_name_ok (entry_name e)) (dir_entries mixed_dir) \<and>
   path_stat mixed_dir = Inr (dir_info 0) \<and> IsDir (dir_info 0) \<and> dir_error mixed_dir = None \<and>
   \<not> LongFormat (Flags \<lparr>Positional = [''d''], Flags = plain_flags\<rparr>) \<and>
   \<not> Recursive (Flags \<lparr>Positional = [''d''], Flags = plain_flags\<rparr>) \<and>
   polls_pass (CancelAfter 6 Canceled) (2 + poll_count 1000 0 4 + 2 + poll_count 100 0 3) \<and>
   SortBy (Flags \<lparr>Positional = [''d''], Flags = plain_flags\<rparr>) = ''name'' \<and>
   (\<exists>lines errs.
      listDirectory \<lparr>Positional = [''d''], Flags = plain_flags\<rparr> (world_of (\<lambda>p. mixed_dir)) ''d''
          mixed_dir no_output =
        Inr (None, no_output\<lparr>stdout := stdout no_output @ lines,
                              stderr := stderr no_output @ errs\<rparr>) \<and>
      set lines = {''b.txt'', ''a.txt''} \<and>
      set errs = {''ls: d/gone: lstat d/gone: no such file or directory''}) \<and>
   (\<exists>lines errs ctx'.
      listPath \<lparr>Positional = [''d''], Flags = plain_flags\<rparr> (world_of (\<lambda>p. mixed_dir)) ''d''
          mixed_dir (CancelAfter 6 Canceled) no_output =
        Inr (None, ctx', no_output\<lparr>stdout := stdout no_output @ lines,
                                    stderr := stderr no_output @ errs\<rparr>) \<and>
      set lines = {''b.txt'', ''a.txt''} \<and>
      set errs = {''ls: d/gone: lstat d/gone: no such file or directory''})"
proof -
  let ?c = "\<lparr>Positional = [''d''], Flags = plain_flags\<rparr>"
  let ?w = "world_of (\<lambda>p. mixed_dir)"
  let ?shown = "\<lambda>e. AllFiles (Flags ?c) \<or> \<not> hidden_name (entry_name e)"
  have h1: "\<forall>e\<in>set (dir_entries mixed_dir). entry_name_ok (entry_name e)"
    by (simp add: mixed_dir_def dir_node_def file_node_def vanished_node_def entry_name_ok_def)
  have h2: "path_stat mixed_dir = Inr (dir_info 0)" "dir_error mixed_dir = None"
    by (simp_all add: mixed_dir_def dir_node_def)
  have h3: "\<not> LongFormat (Flags ?c)" "\<not> Recursive (Flags ?c)"
    by (simp_all add: plain_flags_def)
  have key: "SortBy (Flags ?c) = ''name''"
    by (simp add: plain_flags_def)
  have shown: "filter ?shown (dir_entries mixed_dir) =
      [file_node ''b.txt'' 3 2, vanished_node ''d'' ''gone'', file_node ''a.txt'' 5 3]"
    by (simp add: mixed_dir_def dir_node_def file_node_def vanished_node_def plain_flags_def
        hidden_name_def)
  have len: "length (dir_entries mixed_dir) = 4"
    by (simp add: mixed_dir_def dir_node_def)
  have polls: "polls_pass (CancelAfter 6 Canceled) (2 + poll_count 1000 0 4 + 2 + poll_count 100 0 3)"
    by (simp add: poll_count_small)
  have names: "{entry_name e |e. e \<in> set (dir_entries mixed_dir) \<and> ?shown e \<and> readable e} =
               {''b.txt'', ''a.txt''}"
  proof -
    have "{entry_name e |e. e \<in> set (dir_entries mixed_dir) \<and> ?shown e \<and> readable e} =
          set (map entry_name (filter readable (filter ?shown (dir_entries mixed_dir))))"
      by auto
    also have "\<dots> = {''b.txt'', ''a.txt''}"
      unfolding shown
      by (simp add: file_node_def vanished_node_def readable_def)
    finally show ?thesis .
  qed
  have diags: "{diagnostic (filepath_Join ''d'' (entry_name e)) err |e err.
                  e \<in> set (dir_entries mixed_dir) \<and> ?shown e \<and> entry_info e = Inl err} =
               {''ls: d/gone: lstat d/gone: no such file or directory''}"
  proof -
    have "{diagnostic (filepath_Join ''d'' (entry_name e)) err |e err.
                  e \<in> set (dir_entries mixed_dir) \<and> ?shown e \<and> entry_info e = Inl err} =
          set (entry_diagnostics ''d'' (filter ?shown (dir_entries mixed_dir)))"
      unfolding set_entry_diagnostics by auto
    also have "\<dots> = {''ls: d/gone: lstat d/gone: no such file or directory''}"
      unfolding shown
      by (simp add: file_node_def vanished_node_def PathError_def diagnostic_def Join_gone)
    finally show ?thesis .
  qed
  have polls_h: "polls_pass (CancelAfter 6 Canceled)
        (2 + poll_count 1000 0 (length (dir_entries mixed_dir)) + 2 +
         poll_count 100 0 (length (filter ?shown (dir_entries mixed_dir))))"
    unfolding shown len by (simp add: poll_count_small)
  have key_h: "SortBy (Flags ?c) \<noteq> ''time'' \<and> SortBy (Flags ?c) \<noteq> ''size''"
    by (simp add: plain_flags_def)
  note inst = short_listing_names [OF h1 h2(1) IsDir_dir_info h2(2) h3,
      of ?w "''d''" no_output "CancelAfter 6 Canceled", unfolded names diags]
  from inst have cmd: "\<exists>lines errs.
      listDirectory ?c ?w ''d'' mixed_dir no_output =
        Inr (None, no_output\<lparr>stdout := stdout no_output @ lines,
                              stderr := stderr no_output @ errs\<rparr>) \<and>
      set lines = {''b.txt'', ''a.txt''} \<and>
      set errs = {''ls: d/gone: lstat d/gone: no such file or directory''}"
    by (rule conjunct1)
  from inst [THEN conjunct2, THEN mp, OF polls_h, THEN mp, OF disjI1 [OF key_h]]
  have ls: "\<exists>lines errs ctx'.
      listPath ?c ?w ''d'' mixed_dir (CancelAfter 6 Canceled) no_output =
        Inr (None, ctx', no_output\<lparr>stdout := stdout no_output @ lines,
                                    stderr := stderr no_output @ errs\<rparr>) \<and>
      set lines = {''b.txt'', ''a.txt''} \<and>
      set errs = {''ls: d/gone: lstat d/gone: no such file or directory''}" .
  from h1 have h1': "list_all (\<lambda>e. entry_name_ok (entry_name e)) (dir_entries mixed_dir)"
    by (simp add: list_all_iff)
  show ?thesis
    by (intro conjI h1' h2 h3 IsDir_dir_info polls key cmd ls)
qed

text \<open>
  C6, as stated, fails in both variants: an entry whose \<^verbatim>\<open>Info()\<close> fails (here \<open>a\<close>, removed
  after the directory was read) is reported on the diagnostic stream and its name is
  not written, although it is a child of the directory and not hidden.
\<close>

theorem unreadable_entry_not_listed:
  "listPath \<lparr>Positional = [''d''], Flags = plain_flags\<rparr>
      (world_of (\<lambda>p. dir_node ''d'' 0 [vanished_node ''d'' ''a'']))
      ''d'' (dir_node ''d'' 0 [vanished_node ''d'' ''a'']) Background no_output =
     Inr (None, Background,
          \<lparr>stdout = [], stderr = [''ls: d/a: lstat d/a: no such file or directory'']\<rparr>) \<and>
   listDirectory \<lparr>Positional = [''d''], Flags = plain_flags\<rparr>
      (world_of (\<lambda>p. dir_node ''d'' 0 [vanished_node ''d'' ''a'']))
      ''d'' (dir_node ''d'' 0 [vanished_node ''d'' ''a'']) no_output =
     Inr (None, \<lparr>stdout = [], stderr = [''ls: d/a: lstat d/a: no such file or directory'']\<rparr>) \<and>
   map entry_name (dir_entries (dir_node ''d'' 0 [vanished_node ''d'' ''a''])) = [''a''] \<and>
   \<not> hidden_name ''a''"
  using IsDir_dir_info [of 0]
  by (simp add: listPath.simps listDirectory_def listSingle_def sortEntries_ls_def
      sortEntries_cmd_def sort_Slice_def example_defs hidden_name_def diagnostic_def
      Fprintln_def Join_examples)


section \<open>Recursive listings\<close>

text \<open>
  The listers only append to the streams: running \<^verbatim>\<open>listPath\<close> after some output is running
  it on empty streams and putting the earlier output in front.
\<close>

definition append_io :: "io \<Rightarrow> io \<Rightarrow> io" where
  "append_io a b = \<lparr>stdout = stdout a @ stdout b, stderr = stderr a @ stderr b\<rparr>"

definition after :: "io \<Rightarrow> panic + (error option \<times> ctx \<times> io) \<Rightarrow> panic + (error option \<times> ctx \<times> io)" where
  "after out r = (case r of Inl p \<Rightarrow> Inl p | Inr (e, ctx, written) \<Rightarrow> Inr (e, ctx, append_io out written))"

lemma append_io_no_output [simp]: "append_io out no_output = out" "append_io no_output out = out"
  by (simp_all add: append_io_def no_output_def)


lemma after_Inr [simp]: "after out (Inr (e, ctx, written)) = Inr (e, ctx, append_io out written)"
  by (simp add: after_def)

lemma after_Inl [simp]: "after out (Inl p) = Inl p"
  by (simp add: after_def)





lemma after_no_output [simp]: "after no_output r = r"
  by (cases r) (auto simp: after_def)










text \<open>
  The line of each reported entry whose \<^verbatim>\<open>Info()\<close> succeeded, and the diagnostic of each
  reported error.
\<close>

fun entry_lines :: "command \<Rightarrow> world \<Rightarrow> (string \<times> (error + fileinfo)) list \<Rightarrow> (panic + string) list" where
  "entry_lines p w [] = []"
| "entry_lines p w ((path, Inl err) # rest) = entry_lines p w rest"
| "entry_lines p w ((path, Inr info) # rest) = formatEntry p w path info # entry_lines p w rest"

fun walk_diagnostics :: "(string \<times> (error + fileinfo)) list \<Rightarrow> string list" where
  "walk_diagnostics [] = []"
| "walk_diagnostics ((path, Inl err) # rest) = diagnostic path err # walk_diagnostics rest"
| "walk_diagnostics ((path, Inr info) # rest) = walk_diagnostics rest"




lemma entry_lines_append [simp]:
  "entry_lines p w (xs @ ys) = entry_lines p w xs @ entry_lines p w ys"
  by (induction p w xs rule: entry_lines.induct) auto

lemma walk_diagnostics_append [simp]:
  "walk_diagnostics (xs @ ys) = walk_diagnostics xs @ walk_diagnostics ys"
  by (induction xs rule: walk_diagnostics.induct) auto


definition walk_output :: "command \<Rightarrow> world \<Rightarrow> io \<Rightarrow> (string \<times> (error + fileinfo)) list \<Rightarrow> io" where
  "walk_output p w out items =
     out\<lparr>stdout := stdout out @ map projr (entry_lines p w items),
         stderr := stderr out @ walk_diagnostics items\<rparr>"

lemma walk_output_Nil [simp]: "walk_output p w out [] = out"
  by (simp add: walk_output_def)










end
